theory Spec2Isabelle
  imports Main
begin

section \<open>Errors\<close>

text \<open>
  Every exception the modelled Python can raise is a value. \<open>DomainError\<close> is the
  spec's name for the failure of a modular inverse (the library raises \<open>ValueError\<close>).
\<close>

datatype error =
    DomainError
  | ZeroDivisionError
  | AssertionError
  | TypeError
  | InconsistentResidues
  | OtherError

section \<open>The test servers: \<open>tests/small_p/server_test_small_p.py\<close>, \<open>tests/big_p/server_test_big_p.py\<close>\<close>

subsection \<open>Modular inverse\<close>

text \<open>
  Modelled from the spec: \<open>inverse\<close> is imported from \<open>Crypto.Util.number\<close>, which is
  not among the repository's sources. The spec says that the slope computation
  "fails with a DomainError if an inverse does not exist modulo p". The model is the
  library's extended Euclid loop
  \<^verbatim>\<open>
    u3, v3 = u, v
    u1, v1 = 1, 0
    while v3 > 0:
        q = u3 // v3
        u1, v1 = v1, u1 - v1*q
        u3, v3 = v3, u3 - v3*q
    if u3 != 1: raise ValueError("No inverse value can be computed")
    while u1 < 0: u1 = u1 + v
    return u1
  \<close>
  preceded by its checks of the modulus (zero: \<open>ZeroDivisionError\<close>, negative: an error).
  The final \<open>while u1 < 0\<close> loop adds the positive modulus until the value is not
  negative, which is \<open>u1 mod v\<close> for a negative \<open>u1\<close>.
\<close>

function inverse_loop :: "int \<Rightarrow> int \<Rightarrow> int \<Rightarrow> int \<Rightarrow> int \<times> int" where
  "inverse_loop u1 v1 u3 v3 =
     (if v3 > 0
      then inverse_loop v1 (u1 - v1 * (u3 div v3)) v3 (u3 - v3 * (u3 div v3))
      else (u1, u3))"
  by pat_completeness auto
termination
proof (relation "measure (\<lambda>(u1, v1, u3, v3). nat v3)")
  show "wf (measure (\<lambda>(u1, v1, u3, v3). nat v3))" by simp
next
  fix u1 v1 u3 v3 :: int
  assume pos: "0 < v3"
  have "u3 - v3 * (u3 div v3) = u3 mod v3"
    by (simp add: minus_mult_div_eq_mod)
  moreover have "u3 mod v3 < v3" using pos by simp
  moreover have "0 \<le> u3 mod v3" using pos by simp
  ultimately show "((v1, u1 - v1 * (u3 div v3), v3, u3 - v3 * (u3 div v3)), (u1, v1, u3, v3))
      \<in> measure (\<lambda>(u1, v1, u3, v3). nat v3)"
    using pos by simp
qed

declare inverse_loop.simps [simp del]

definition inverse_mod :: "int \<Rightarrow> int \<Rightarrow> error + int" where
  "inverse_mod u v =
     (if v = 0 then Inl ZeroDivisionError
      else if v < 0 then Inl DomainError
      else (case inverse_loop 1 0 u v of
              (u1, u3) \<Rightarrow>
                if u3 \<noteq> 1 then Inl DomainError
                else Inr (if u1 < 0 then u1 mod v else u1)))"

subsection \<open>The group law\<close>

type_synonym point = "int \<times> int"

text \<open>
  The curve environment is the dictionary \<open>E = {'a': a, 'b': b, 'p': p}\<close>.
\<close>

record curve =
  curve_a :: int
  curve_b :: int
  curve_p :: int

text \<open>Python's \<open>%\<close> raises on a zero modulus; for a non-zero one it is HOL's \<open>mod\<close>
  (both take the sign of the divisor).\<close>

definition py_mod :: "int \<Rightarrow> int \<Rightarrow> error + int" where
  "py_mod x m = (if m = 0 then Inl ZeroDivisionError else Inr (x mod m))"

text \<open>
  The slope \<open>l\<close> of \<open>add\<close>: the secant when \<open>P != Q\<close>, the tangent otherwise.
\<close>

definition slope :: "point \<Rightarrow> point \<Rightarrow> curve \<Rightarrow> error + int" where
  "slope P Q E =
     (case (P, Q) of ((x1, y1), (x2, y2)) \<Rightarrow>
        if P \<noteq> Q
        then (case inverse_mod (x2 - x1) (curve_p E) of
                Inl e \<Rightarrow> Inl e
              | Inr i \<Rightarrow> Inr ((y2 - y1) * i))
        else (case inverse_mod (2 * y1) (curve_p E) of
                Inl e \<Rightarrow> Inl e
              | Inr i \<Rightarrow> Inr ((3 * x1\<^sup>2 + curve_a E) * i)))"

definition add :: "point \<Rightarrow> point \<Rightarrow> curve \<Rightarrow> error + point" where
  "add P Q E =
     (if P = (0, 0) then Inr Q
      else if Q = (0, 0) then Inr P
      else (case (P, Q) of ((x1, y1), (x2, y2)) \<Rightarrow>
        if x1 = x2 \<and> y1 = - y2 then Inr (0, 0)
        else (case slope P Q E of
                Inl e \<Rightarrow> Inl e
              | Inr l \<Rightarrow>
                  (case py_mod (l\<^sup>2 - x1 - x2) (curve_p E) of
                     Inl e \<Rightarrow> Inl e
                   | Inr x3 \<Rightarrow>
                       (case py_mod (l * (x1 - x3) - y1) (curve_p E) of
                          Inl e \<Rightarrow> Inl e
                        | Inr y3 \<Rightarrow> Inr (x3, y3))))))"

text \<open>
  \<open>multiply\<close>: the loop \<open>while n > 0\<close> with the state \<open>(Q, R, n)\<close>; an exception of
  \<open>add\<close> leaves the loop.
\<close>

function multiply_loop :: "point \<Rightarrow> point \<Rightarrow> int \<Rightarrow> curve \<Rightarrow> error + point" where
  "multiply_loop Q R n E =
     (if n > 0
      then (case (if n mod 2 = 1 then add R Q E else Inr R) of
              Inl e \<Rightarrow> Inl e
            | Inr R' \<Rightarrow>
                (case add Q Q E of
                   Inl e \<Rightarrow> Inl e
                 | Inr Q' \<Rightarrow> multiply_loop Q' R' (n div 2) E))
      else Inr R)"
  by pat_completeness auto
termination
  by (relation "measure (\<lambda>(Q, R, n, E). nat n)") auto

declare multiply_loop.simps [simp del]

definition multiply :: "point \<Rightarrow> int \<Rightarrow> curve \<Rightarrow> error + point" where
  "multiply P n E = multiply_loop P (0, 0) n E"

subsection \<open>The oracle\<close>

text \<open>
  The argument \<open>C\<close> of \<open>server_oracle\<close> is any Python object. What line
  \<open>x, y = [int(i) for i in C]\<close> does with it depends only on whether \<open>C\<close> can be
  iterated and on what \<open>int\<close> makes of each item: \<open>Some n\<close> is an item that \<open>int\<close>
  converts to \<open>n\<close>, \<open>None\<close> an item on which \<open>int\<close> raises.
\<close>

datatype request = NotIterable | Items "int option list"

fun ints_of :: "int option list \<Rightarrow> error + int list" where
  "ints_of [] = Inr []"
| "ints_of (None # xs) = Inl TypeError"
| "ints_of (Some n # xs) = (case ints_of xs of Inl e \<Rightarrow> Inl e | Inr ns \<Rightarrow> Inr (n # ns))"

text \<open>The body of the \<open>try\<close> block; the unpacking \<open>x, y = ...\<close> raises unless the list has
  two elements.\<close>

definition oracle_body :: "int \<Rightarrow> curve \<Rightarrow> request \<Rightarrow> error + point" where
  "oracle_body secret E C =
     (case C of
        NotIterable \<Rightarrow> Inl TypeError
      | Items xs \<Rightarrow>
          (case ints_of xs of
             Inl e \<Rightarrow> Inl e
           | Inr [x, y] \<Rightarrow> multiply (x, y) secret E
           | Inr _ \<Rightarrow> Inl OtherError))"

text \<open>The bare \<open>except:\<close> turns every exception into the return value \<open>None\<close>.\<close>

definition server_oracle :: "int \<Rightarrow> curve \<Rightarrow> request \<Rightarrow> point option" where
  "server_oracle secret E C =
     (case oracle_body secret E C of Inl e \<Rightarrow> None | Inr S \<Rightarrow> Some S)"

text \<open>
  The module constants. \<open>secret\<close> is \<open>random.getrandbits(87)\<close> (small field) and
  \<open>random.getrandbits(255)\<close> (large field) after \<open>random.seed('i_love_crypto')\<close>: the
  values below are what CPython's generator returns for that seed.
\<close>

definition p_small :: int where "p_small = 183864092725132365247326101"
definition a_small :: int where "a_small = 35464063352748132137167577"
definition b_small :: int where "b_small = 73813813485549545642019671"
definition secret_small :: int where "secret_small = 51985886632013103124107672"

definition E_small :: curve where
  "E_small = \<lparr>curve_a = a_small, curve_b = b_small, curve_p = p_small\<rparr>"

definition p_big :: int where
  "p_big = 0xffffffff00000001000000000000000000000000ffffffffffffffffffffffff"
definition a_big :: int where
  "a_big = 0xffffffff00000001000000000000000000000000fffffffffffffffffffffffc"
definition b_big :: int where
  "b_big = 0x5ac635d8aa3a93e7b3ebbd55769886bc651d06b0cc53b0f63bce3c3e27d2604b"
definition secret_big :: int where
  "secret_big = 9606949374378083589209851183909649624022474731662205914631165246884755460504"

definition E_big :: curve where
  "E_big = \<lparr>curve_a = a_big, curve_b = b_big, curve_p = p_big\<rparr>"

definition server_oracle_small_p :: "request \<Rightarrow> point option" where
  "server_oracle_small_p C = server_oracle secret_small E_small C"

definition server_oracle_big_p :: "request \<Rightarrow> point option" where
  "server_oracle_big_p C = server_oracle secret_big E_big C"

section \<open>Bounded-time execution: \<open>shared/run_timeouts.py\<close>\<close>

text \<open>
  What the wrapped call \<open>func(*args, **kwargs)\<close> does while the alarm is set to a given
  number of seconds: it returns a value (\<open>None\<close> is Python's \<open>None\<close>), it is interrupted
  by the alarm (\<open>TimeoutException\<close>), or it raises another exception. The wrapped
  function is given as the map from the deadline to this outcome; within one call of
  \<open>loop_func_with_timeout\<close> every attempt has a deadline of its own.
\<close>

datatype 'a outcome = Returns "'a option" | TimesOut | Raises error

definition run_func_with_timeout :: "(int \<Rightarrow> 'a outcome) \<Rightarrow> int \<Rightarrow> error + 'a option" where
  "run_func_with_timeout func timeout =
     (if \<not> timeout > 0 then Inl AssertionError
      else (case func timeout of
              Returns v \<Rightarrow> Inr v
            | TimesOut \<Rightarrow> Inr None
            | Raises e \<Rightarrow> Inl e))"

text \<open>Python's truth value of a result: \<open>None\<close> is false, any other value as \<open>truthy\<close> says
  (\<open>0\<close> and the empty list are false).\<close>

definition is_truthy :: "('a \<Rightarrow> bool) \<Rightarrow> 'a option \<Rightarrow> bool" where
  "is_truthy truthy r = (case r of None \<Rightarrow> False | Some v \<Rightarrow> truthy v)"

text \<open>
  The \<open>while start_timeout < max_timeout\<close> loop, with \<open>result\<close> the value of the
  variable on entry. Next to the loop's result the model returns the deadlines passed
  to \<open>run_func_with_timeout\<close>, in order.
\<close>

function retry_loop ::
  "('a \<Rightarrow> bool) \<Rightarrow> (int \<Rightarrow> 'a outcome) \<Rightarrow> int \<Rightarrow> int \<Rightarrow> 'a option \<Rightarrow> int list \<times> (error + 'a option)"
where
  "retry_loop truthy func start_timeout max_timeout result =
     (if start_timeout < max_timeout
      then (case run_func_with_timeout func start_timeout of
              Inl e \<Rightarrow> ([start_timeout], Inl e)
            | Inr r \<Rightarrow>
                if is_truthy truthy r then ([start_timeout], Inr r)
                else (case retry_loop truthy func (start_timeout + 1) max_timeout r of
                        (ds, res) \<Rightarrow> (start_timeout # ds, res)))
      else ([], Inr result))"
  by pat_completeness auto
termination
  by (relation "measure (\<lambda>(truthy, func, start_timeout, max_timeout, result).
        nat (max_timeout - start_timeout))") auto

declare retry_loop.simps [simp del]

text \<open>
  The keyword argument \<open>max_timeout\<close>: not passed (\<open>kwargs.pop\<close> gives
  \<open>start_timeout + 5\<close>), or passed with a value, which may be \<open>None\<close>; comparing \<open>None\<close>
  with an integer raises \<open>TypeError\<close>.
\<close>

datatype max_timeout_arg = NotPassed | Passed "int option"

definition loop_func_with_timeout_log ::
  "('a \<Rightarrow> bool) \<Rightarrow> (int \<Rightarrow> 'a outcome) \<Rightarrow> int \<Rightarrow> max_timeout_arg \<Rightarrow> int list \<times> (error + 'a option)"
where
  "loop_func_with_timeout_log truthy func timeout kw =
     (case (case kw of NotPassed \<Rightarrow> Some (timeout + 5) | Passed m \<Rightarrow> m) of
        None \<Rightarrow> ([], Inl TypeError)
      | Some max_timeout \<Rightarrow>
          if \<not> max_timeout > timeout then ([], Inl AssertionError)
          else if \<not> timeout > 0 then ([], Inl AssertionError)
          else retry_loop truthy func timeout max_timeout None)"

definition loop_func_with_timeout ::
  "('a \<Rightarrow> bool) \<Rightarrow> (int \<Rightarrow> 'a outcome) \<Rightarrow> int \<Rightarrow> max_timeout_arg \<Rightarrow> error + 'a option"
where
  "loop_func_with_timeout truthy func timeout kw =
     snd (loop_func_with_timeout_log truthy func timeout kw)"

section \<open>Factorization: \<open>shared/factor_help.py\<close>\<close>

text \<open>
  \<open>is_prime\<close> is Sage's primality test (a library function); the model decides
  primality by trial division.
\<close>

definition is_prime :: "int \<Rightarrow> bool" where
  "is_prime n = (1 < n \<and> list_all (\<lambda>d. \<not> d dvd n) [2..n - 1])"

text \<open>
  The services outside the program: the factor list \<open>factor_factordb(N)\<close> gets from
  FactorDB (the empty list when the connection fails), and what \<open>ecm.factor(X)\<close> does
  under a deadline.
\<close>

record factor_env =
  factor_factordb :: "int \<Rightarrow> int list"
  ecm_factor :: "int \<Rightarrow> int \<Rightarrow> int list outcome"

definition list_truthy :: "int list \<Rightarrow> bool" where
  "list_truthy xs = (xs \<noteq> [])"

text \<open>
  The loop \<open>for X in factors\<close> of \<open>factor_integer\<close>. The list is changed while it is
  iterated: Python's list iterator keeps an index \<open>i\<close>, stops when \<open>i\<close> reaches the
  current length and otherwise takes \<open>factors[i]\<close>. \<open>factors.remove(X)\<close> removes the
  first occurrence of \<open>X\<close>, \<open>extend\<close> appends. The loop need not end (an
  \<open>ecm.factor\<close> that keeps returning composites feeds it for ever), so not returning
  is the value \<open>None\<close>.
\<close>

partial_function (option) factor_loop ::
  "factor_env \<Rightarrow> int \<Rightarrow> int option \<Rightarrow> nat \<Rightarrow> int list \<Rightarrow> (error + int list) option"
where
  "factor_loop env timeout max_timeout i factors =
     (if i < length factors
      then (if \<not> is_prime (factors ! i)
            then (case loop_func_with_timeout list_truthy (ecm_factor env (factors ! i))
                         timeout (Passed max_timeout) of
                    Inl e \<Rightarrow> Some (Inl e)
                  | Inr additional_factors \<Rightarrow>
                      (case additional_factors of
                         None \<Rightarrow> factor_loop env timeout max_timeout (i + 1) factors
                       | Some fs \<Rightarrow>
                           if \<not> list_truthy fs
                           then factor_loop env timeout max_timeout (i + 1) factors
                           else factor_loop env timeout max_timeout (i + 1)
                                  (remove1 (factors ! i) factors @ fs)))
            else factor_loop env timeout max_timeout (i + 1) factors)
      else Some (Inr factors))"

definition factor_integer ::
  "factor_env \<Rightarrow> int \<Rightarrow> int \<Rightarrow> int option \<Rightarrow> (error + int list) option"
where
  "factor_integer env N timeout max_timeout =
     (if list_all is_prime (factor_factordb env N) then Some (Inr (factor_factordb env N))
      else factor_loop env timeout max_timeout 0 (factor_factordb env N))"

definition fact_dict :: "int list \<Rightarrow> int list" where
  "fact_dict fac_list = sort (map (\<lambda>k. k ^ count_list fac_list k) (remdups fac_list))"

datatype factors_result = Factors "int list" | FactorsAndDict "int list" "int list"

definition get_factors ::
  "factor_env \<Rightarrow> int \<Rightarrow> int \<Rightarrow> int option \<Rightarrow> bool \<Rightarrow> (error + factors_result) option"
where
  "get_factors env N timeout max_timeout factor_dict =
     (case factor_integer env N timeout max_timeout of
        None \<Rightarrow> None
      | Some (Inl e) \<Rightarrow> Some (Inl e)
      | Some (Inr result) \<Rightarrow>
          Some (Inr (if factor_dict then FactorsAndDict result (fact_dict result)
                     else Factors result)))"

section \<open>CRT combination of the orchestrator\<close>

text \<open>
  Modelled from the spec: the orchestrator (\<open>invalid_curve_attack.py\<close>) is not among
  the sources, only its test is. The spec describes its CRT combination as
  "iterative pairwise reconciliation: maintain a running (modulus_acc, residue_acc);
  for each new record, if gcd(modulus_acc, q) != 1 the two subgroups overlap in a shared
  prime and must agree on the overlapping residue (else the data is inconsistent, fatal);
  reduce to the coprime part before combining".
\<close>

record residue_record =
  modulus :: int
  residue :: int

function coprime_part :: "int \<Rightarrow> int \<Rightarrow> int" where
  "coprime_part q m =
     (if 0 < q \<and> gcd q m \<noteq> 1 then coprime_part (q div gcd q m) m else q)"
  by pat_completeness auto
termination
proof (relation "measure (\<lambda>(q, m). nat q)")
  show "wf (measure (\<lambda>(q, m). nat q))" by simp
next
  fix q m :: int
  assume a: "0 < q \<and> gcd q m \<noteq> 1"
  have g0: "gcd q m \<noteq> 0" using a by auto
  have "0 \<le> gcd q m" by simp
  with a g0 have g2: "2 \<le> gcd q m" by linarith
  have "q div gcd q m < q"
    using a g2 by (intro int_div_less_self) auto
  then show "((q div gcd q m, m), (q, m)) \<in> measure (\<lambda>(q, m). nat q)"
    using a by simp
qed

declare coprime_part.simps [simp del]

definition crt_step :: "int \<times> int \<Rightarrow> residue_record \<Rightarrow> error + int \<times> int" where
  "crt_step acc rec =
     (case acc of (modulus_acc, residue_acc) \<Rightarrow>
        if gcd modulus_acc (modulus rec) \<noteq> 1
           \<and> residue_acc mod gcd modulus_acc (modulus rec)
               \<noteq> residue rec mod gcd modulus_acc (modulus rec)
        then Inl InconsistentResidues
        else (case inverse_mod modulus_acc (coprime_part (modulus rec) modulus_acc) of
                Inl e \<Rightarrow> Inl e
              | Inr i \<Rightarrow>
                  Inr (modulus_acc * coprime_part (modulus rec) modulus_acc,
                       (residue_acc
                          + modulus_acc * (((residue rec - residue_acc) * i)
                                             mod coprime_part (modulus rec) modulus_acc))
                         mod (modulus_acc * coprime_part (modulus rec) modulus_acc))))"

fun crt_fold :: "int \<times> int \<Rightarrow> residue_record list \<Rightarrow> error + int \<times> int" where
  "crt_fold acc [] = Inr acc"
| "crt_fold acc (r # rs) =
     (case crt_step acc r of Inl e \<Rightarrow> Inl e | Inr acc' \<Rightarrow> crt_fold acc' rs)"

definition crt_combine :: "residue_record list \<Rightarrow> error + int \<times> int" where
  "crt_combine records = crt_fold (1, 0) records"

section \<open>Vocabulary of the properties\<close>

text \<open>A point whose coordinates are reduced into \<open>[0, p)\<close>.\<close>

definition reduced :: "int \<Rightarrow> point \<Rightarrow> bool" where
  "reduced p P = (0 \<le> fst P \<and> fst P < p \<and> 0 \<le> snd P \<and> snd P < p)"

text \<open>A curve environment over the field with five elements, for examples.\<close>

definition E5 :: curve where
  "E5 = \<lparr>curve_a = 1, curve_b = 1, curve_p = 5\<rparr>"

text \<open>
  Three states of the outside services, for the factorization of \<open>105\<close>: FactorDB knows
  all prime factors; FactorDB knows \<open>3 * 35\<close> and ECM splits \<open>35\<close> when given two seconds;
  FactorDB knows \<open>3 * 35\<close> and ECM never finishes.
\<close>

definition prime_env :: factor_env where
  "prime_env = \<lparr>factor_factordb = (\<lambda>N. if N = 105 then [3, 5, 7] else []),
                 ecm_factor = (\<lambda>X d. TimesOut)\<rparr>"

definition ecm_env :: factor_env where
  "ecm_env = \<lparr>factor_factordb = (\<lambda>N. if N = 105 then [3, 35] else []),
               ecm_factor = (\<lambda>X d. if X = 35 \<and> 2 \<le> d then Returns (Some [5, 7]) else TimesOut)\<rparr>"

definition stalled_env :: factor_env where
  "stalled_env = \<lparr>factor_factordb = (\<lambda>N. if N = 105 then [3, 35] else []),
                   ecm_factor = (\<lambda>X d. TimesOut)\<rparr>"

text \<open>
  A factor list in which no composite is directly followed by another composite; the
  escalating ECM call on \<open>X\<close> returns a non-empty list of primes that multiply to \<open>X\<close>;
  the number of composites of a list.
\<close>

fun no_adjacent_composites :: "int list \<Rightarrow> bool" where
  "no_adjacent_composites (x # y # xs) =
     ((is_prime x \<or> is_prime y) \<and> no_adjacent_composites (y # xs))"
| "no_adjacent_composites xs = True"

definition ecm_splits :: "factor_env \<Rightarrow> int \<Rightarrow> int option \<Rightarrow> int \<Rightarrow> bool" where
  "ecm_splits env timeout max_timeout X =
     (case loop_func_with_timeout list_truthy (ecm_factor env X) timeout (Passed max_timeout) of
        Inr (Some fs) \<Rightarrow> fs \<noteq> [] \<and> list_all is_prime fs \<and> prod_list fs = X
      | _ \<Rightarrow> False)"

definition composites :: "int list \<Rightarrow> nat" where
  "composites xs = length (filter (\<lambda>x. \<not> is_prime x) xs)"

text \<open>A well-formed request: exactly two items, each of which \<open>int\<close> converts.\<close>

fun well_formed :: "request \<Rightarrow> bool" where
  "well_formed (Items [Some x, Some y]) = True"
| "well_formed C = False"

text \<open>Pairwise coprime positive moduli, and the residue records of a secret \<open>s\<close>.\<close>

fun pairwise_coprime :: "int list \<Rightarrow> bool" where
  "pairwise_coprime [] = True"
| "pairwise_coprime (q # qs) = (list_all (\<lambda>r. gcd q r = 1) qs \<and> pairwise_coprime qs)"

definition records_of :: "int \<Rightarrow> int list \<Rightarrow> residue_record list" where
  "records_of s qs = map (\<lambda>q. \<lparr>modulus = q, residue = s mod q\<rparr>) qs"

section \<open>The modular inverse and primality\<close>

lemma inverse_loop_gcd:
  "0 \<le> v3 \<Longrightarrow> (v3 = 0 \<Longrightarrow> 0 \<le> u3) \<Longrightarrow> snd (inverse_loop u1 v1 u3 v3) = gcd u3 v3"
proof (induction u1 v1 u3 v3 rule: inverse_loop.induct)
  case (1 u1 v1 u3 v3)
  show ?case
  proof (cases "0 < v3")
    case True
    have m: "u3 - v3 * (u3 div v3) = u3 mod v3"
      by (simp add: minus_mult_div_eq_mod)
    have nn: "0 \<le> u3 mod v3" using True by simp
    have "snd (inverse_loop v1 (u1 - v1 * (u3 div v3)) v3 (u3 - v3 * (u3 div v3)))
            = gcd v3 (u3 - v3 * (u3 div v3))"
      using "1.IH" [OF True] True nn m by simp
    then have "snd (inverse_loop u1 v1 u3 v3) = gcd v3 (u3 mod v3)"
      using True m by (subst inverse_loop.simps) simp
    then show ?thesis by (simp add: gcd_red_int [of u3 v3])
  next
    case False
    with "1.prems" have z: "v3 = 0" and nn: "0 \<le> u3" by auto
    show ?thesis using z nn by (subst inverse_loop.simps) simp
  qed
qed

lemma inverse_loop_bezout:
  "(u1 * u) mod v = u3 mod v \<Longrightarrow> (v1 * u) mod v = v3 mod v \<Longrightarrow>
   (fst (inverse_loop u1 v1 u3 v3) * u) mod v = snd (inverse_loop u1 v1 u3 v3) mod v"
proof (induction u1 v1 u3 v3 rule: inverse_loop.induct)
  case (1 u1 v1 u3 v3)
  show ?case
  proof (cases "0 < v3")
    case True
    let ?q = "u3 div v3"
    have "(u1 * u - ?q * (v1 * u)) mod v = (u3 - ?q * v3) mod v"
      using "1.prems" by (intro mod_diff_cong mod_mult_cong) auto
    then have step: "((u1 - v1 * ?q) * u) mod v = (u3 - v3 * ?q) mod v"
      by (simp add: algebra_simps)
    have "(fst (inverse_loop v1 (u1 - v1 * ?q) v3 (u3 - v3 * ?q)) * u) mod v
            = snd (inverse_loop v1 (u1 - v1 * ?q) v3 (u3 - v3 * ?q)) mod v"
      using "1.IH" [OF True] "1.prems" step by simp
    then show ?thesis using True by (subst (1 2) inverse_loop.simps) simp
  next
    case False
    then show ?thesis using "1.prems" by (subst (1 2) inverse_loop.simps) simp
  qed
qed

lemma inverse_mod_cases:
  assumes "0 < v"
  shows "inverse_mod u v =
           (if gcd u v = 1
            then Inr (if fst (inverse_loop 1 0 u v) < 0 then fst (inverse_loop 1 0 u v) mod v
                      else fst (inverse_loop 1 0 u v))
            else Inl DomainError)"
proof -
  have "snd (inverse_loop 1 0 u v) = gcd u v"
    using assms by (intro inverse_loop_gcd) auto
  then show ?thesis using assms
    by (simp add: inverse_mod_def case_prod_unfold)
qed

lemma inverse_mod_fails: "0 < v \<Longrightarrow> gcd u v \<noteq> 1 \<Longrightarrow> inverse_mod u v = Inl DomainError"
  by (simp add: inverse_mod_cases)

lemma inverse_mod_nonpos: "v \<le> 0 \<Longrightarrow> \<exists>e. inverse_mod u v = Inl e"
  by (simp add: inverse_mod_def)

lemma inverse_mod_succeeds:
  assumes "0 < v" "gcd u v = 1"
  shows "\<exists>i. inverse_mod u v = Inr i \<and> (i * u) mod v = 1 mod v"
proof -
  let ?a = "fst (inverse_loop 1 0 u v)"
  have g: "snd (inverse_loop 1 0 u v) = 1"
    using assms inverse_loop_gcd [of v u 1 0] by simp
  have "(?a * u) mod v = snd (inverse_loop 1 0 u v) mod v"
    by (intro inverse_loop_bezout) simp_all
  then have b: "(?a * u) mod v = 1 mod v" using g by simp
  have "((?a mod v) * u) mod v = (?a * u) mod v"
    by (simp add: mod_mult_left_eq)
  with b have "((if ?a < 0 then ?a mod v else ?a) * u) mod v = 1 mod v" by simp
  then show ?thesis using assms by (simp add: inverse_mod_cases)
qed

lemma inverse_mod_Inr:
  assumes "inverse_mod u v = Inr i"
  shows "0 < v \<and> gcd u v = 1 \<and> (i * u) mod v = 1 mod v"
proof -
  have pos: "0 < v" using assms by (auto simp: inverse_mod_def split: if_splits)
  have g: "gcd u v = 1" using assms pos by (auto simp: inverse_mod_cases split: if_splits)
  from inverse_mod_succeeds [OF pos g] assms show ?thesis using pos g by auto
qed

lemma is_prime_iff: "is_prime p \<longleftrightarrow> 1 < p \<and> (\<forall>d. 2 \<le> d \<and> d \<le> p - 1 \<longrightarrow> \<not> d dvd p)"
  unfolding is_prime_def list_all_iff set_upto by auto

lemma is_prime_coprime:
  assumes "is_prime p" "\<not> p dvd u"
  shows "gcd u p = 1"
proof -
  have p1: "1 < p" and nd: "\<And>d. 2 \<le> d \<Longrightarrow> d \<le> p - 1 \<Longrightarrow> \<not> d dvd p"
    using assms(1) unfolding is_prime_iff by blast+
  define g where "g = gcd u p"
  have gp: "g dvd p" and gu: "g dvd u" by (simp_all add: g_def)
  have g0: "0 \<le> g" by (simp add: g_def)
  have gne: "g \<noteq> 0" using p1 by (auto simp: g_def)
  have gle: "g \<le> p" using gp p1 by (intro zdvd_imp_le) auto
  have "g \<noteq> p" using gu assms(2) by blast
  with gle have le1: "g \<le> p - 1" by simp
  have "\<not> 2 \<le> g" using nd [of g] le1 gp by blast
  with g0 gne have "g = 1" by linarith
  then show ?thesis by (simp add: g_def)
qed

section \<open>Properties of the group law\<close>

lemma multiply_loop_nonpos: "n \<le> 0 \<Longrightarrow> multiply_loop Q R n E = Inr R"
  by (subst multiply_loop.simps) simp

text \<open>
  C8. The point at infinity \<open>(0, 0)\<close> is the identity of the group law:
  \<open>add((0,0), Q, E) = Q\<close> and \<open>add(Q, (0,0), E) = Q\<close> for every point \<open>Q\<close>, and
  \<open>multiply(P, 0, E)\<close> returns \<open>(0, 0)\<close> for every point \<open>P\<close>.
\<close>

theorem identity_point:
  "add (0, 0) Q E = Inr Q \<and> add Q (0, 0) E = Inr Q \<and> multiply P 0 E = Inr (0, 0)"
  by (simp add: add_def multiply_def multiply_loop_nonpos)

lemma slope_b_independent:
  assumes a: "curve_a E1 = curve_a E2" and p: "curve_p E1 = curve_p E2"
  shows "slope P Q E1 = slope P Q E2"
  unfolding slope_def a p by (rule refl)

lemma add_b_independent:
  assumes a: "curve_a E1 = curve_a E2" and p: "curve_p E1 = curve_p E2"
  shows "add P Q E1 = add P Q E2"
  unfolding add_def p slope_b_independent [OF a p] by (rule refl)

lemma multiply_loop_unfold:
  "0 < n \<Longrightarrow> multiply_loop Q R n E =
     (case (if n mod 2 = 1 then add R Q E else Inr R) of
        Inl e \<Rightarrow> Inl e
      | Inr R' \<Rightarrow>
          (case add Q Q E of
             Inl e \<Rightarrow> Inl e
           | Inr Q' \<Rightarrow> multiply_loop Q' R' (n div 2) E))"
  by (subst multiply_loop.simps) simp

lemma multiply_loop_b_independent:
  assumes "curve_a E1 = curve_a E2" "curve_p E1 = curve_p E2"
  shows "multiply_loop Q R n E1 = multiply_loop Q R n E2"
  using assms
proof (induction Q R n E1 rule: multiply_loop.induct)
  case (1 Q R n E)
  have a: "\<And>P Q. add P Q E = add P Q E2"
    using "1.prems" by (rule add_b_independent)
  show ?case
  proof (cases "0 < n")
    case False
    then show ?thesis by (simp add: multiply_loop_nonpos)
  next
    case True
    have ih: "multiply_loop Q' R' (n div 2) E = multiply_loop Q' R' (n div 2) E2"
      if "(if n mod 2 = 1 then add R Q E2 else Inr R) = Inr R'" "add Q Q E2 = Inr Q'" for R' Q'
      using "1.IH" [OF True, of R' Q'] that "1.prems" unfolding a by blast
    show ?thesis
      unfolding multiply_loop_unfold [OF True] a
      by (auto split: sum.splits simp: ih)
  qed
qed

section \<open>Results of the group law\<close>

lemma add_unfold:
  assumes "P \<noteq> (0, 0)" "Q \<noteq> (0, 0)" "\<not> (fst P = fst Q \<and> snd P = - snd Q)"
  shows "add P Q E =
     (case slope P Q E of
        Inl e \<Rightarrow> Inl e
      | Inr l \<Rightarrow>
          (case py_mod (l\<^sup>2 - fst P - fst Q) (curve_p E) of
             Inl e \<Rightarrow> Inl e
           | Inr x3 \<Rightarrow>
               (case py_mod (l * (fst P - x3) - snd P) (curve_p E) of
                  Inl e \<Rightarrow> Inl e
                | Inr y3 \<Rightarrow> Inr (x3, y3))))"
proof -
  have "add P Q E = (if fst P = fst Q \<and> snd P = - snd Q then Inr (0, 0) else
     (case slope P Q E of
        Inl e \<Rightarrow> Inl e
      | Inr l \<Rightarrow>
          (case py_mod (l\<^sup>2 - fst P - fst Q) (curve_p E) of
             Inl e \<Rightarrow> Inl e
           | Inr x3 \<Rightarrow>
               (case py_mod (l * (fst P - x3) - snd P) (curve_p E) of
                  Inl e \<Rightarrow> Inl e
                | Inr y3 \<Rightarrow> Inr (x3, y3)))))"
    using assms(1,2) by (simp add: add_def case_prod_unfold cong: sum.case_cong if_cong)
  then show ?thesis using assms(3) by (simp only: if_False)
qed

lemma add_inverse_branch:
  "P \<noteq> (0, 0) \<Longrightarrow> Q \<noteq> (0, 0) \<Longrightarrow> fst P = fst Q \<Longrightarrow> snd P = - snd Q \<Longrightarrow> add P Q E = Inr (0, 0)"
  by (simp add: add_def case_prod_unfold cong: sum.case_cong)

lemma slope_secant:
  "P \<noteq> Q \<Longrightarrow> slope P Q E =
     (case inverse_mod (fst Q - fst P) (curve_p E) of
        Inl e \<Rightarrow> Inl e
      | Inr i \<Rightarrow> Inr ((snd Q - snd P) * i))"
  by (simp add: slope_def case_prod_unfold cong: sum.case_cong)

lemma slope_tangent:
  "slope P P E =
     (case inverse_mod (2 * snd P) (curve_p E) of
        Inl e \<Rightarrow> Inl e
      | Inr i \<Rightarrow> Inr ((3 * (fst P)\<^sup>2 + curve_a E) * i))"
  by (simp add: slope_def case_prod_unfold cong: sum.case_cong)

lemma slope_Inr_pos: "slope P Q E = Inr l \<Longrightarrow> 0 < curve_p E"
proof (cases "P = Q")
  case True
  assume "slope P Q E = Inr l"
  with True obtain i where "inverse_mod (2 * snd P) (curve_p E) = Inr i"
    by (auto simp: slope_tangent split: sum.splits)
  then show ?thesis using inverse_mod_Inr by blast
next
  case False
  assume "slope P Q E = Inr l"
  with False obtain i where "inverse_mod (fst Q - fst P) (curve_p E) = Inr i"
    by (auto simp: slope_secant split: sum.splits)
  then show ?thesis using inverse_mod_Inr by blast
qed

lemma add_slope_Inl:
  assumes "P \<noteq> (0, 0)" "Q \<noteq> (0, 0)" "\<not> (fst P = fst Q \<and> snd P = - snd Q)"
    and "slope P Q E = Inl e"
  shows "add P Q E = Inl e"
  using assms(4) by (simp add: add_unfold [OF assms(1-3)])

lemma add_slope_Inr:
  assumes "P \<noteq> (0, 0)" "Q \<noteq> (0, 0)" "\<not> (fst P = fst Q \<and> snd P = - snd Q)"
    and "slope P Q E = Inr l"
  shows "add P Q E =
     Inr ((l\<^sup>2 - fst P - fst Q) mod curve_p E,
          (l * (fst P - (l\<^sup>2 - fst P - fst Q) mod curve_p E) - snd P) mod curve_p E)"
proof -
  have "curve_p E \<noteq> 0" using slope_Inr_pos [OF assms(4)] by simp
  then show ?thesis using assms(4)
    by (simp add: add_unfold [OF assms(1-3)] py_mod_def)
qed

lemma reduced_mod: "0 < p \<Longrightarrow> reduced p (a mod p, b mod p)"
  by (simp add: reduced_def)

lemma reduced_zero: "0 < p \<Longrightarrow> reduced p (0, 0)"
  by (simp add: reduced_def)

lemma add_reduced:
  assumes pos: "0 < curve_p E"
    and P: "reduced (curve_p E) P" and Q: "reduced (curve_p E) Q"
    and res: "add P Q E = Inr S"
  shows "reduced (curve_p E) S"
proof (cases "P = (0, 0)")
  case True
  with res Q show ?thesis by (simp add: add_def)
next
  case Pn: False
  show ?thesis
  proof (cases "Q = (0, 0)")
    case True
    with res P Pn show ?thesis by (simp add: add_def)
  next
    case Qn: False
    show ?thesis
    proof (cases "fst P = fst Q \<and> snd P = - snd Q")
      case True
      with res Pn Qn have "S = (0, 0)" by (simp add: add_inverse_branch)
      then show ?thesis using pos by (simp add: reduced_zero)
    next
      case False
      show ?thesis
      proof (cases "slope P Q E")
        case (Inl e)
        with res show ?thesis by (simp add: add_slope_Inl [OF Pn Qn False])
      next
        case (Inr l)
        with res show ?thesis using pos
          by (auto simp: add_slope_Inr [OF Pn Qn False] reduced_mod)
      qed
    qed
  qed
qed

lemma add_self_reduced:
  assumes pos: "0 < curve_p E" and res: "add P P E = Inr S"
  shows "reduced (curve_p E) S"
proof (cases "P = (0, 0)")
  case True
  with res have "S = (0, 0)" by (simp add: add_def)
  then show ?thesis using pos by (simp add: reduced_zero)
next
  case Pn: False
  show ?thesis
  proof (cases "snd P = - snd P")
    case True
    with res Pn have "S = (0, 0)" by (simp add: add_inverse_branch)
    then show ?thesis using pos by (simp add: reduced_zero)
  next
    case False
    then have ninv: "\<not> (fst P = fst P \<and> snd P = - snd P)" by simp
    show ?thesis
    proof (cases "slope P P E")
      case (Inl e)
      with res show ?thesis by (simp add: add_slope_Inl [OF Pn Pn ninv])
    next
      case (Inr l)
      with res show ?thesis using pos
        by (auto simp: add_slope_Inr [OF Pn Pn ninv] reduced_mod)
    qed
  qed
qed

lemma multiply_loop_reduced:
  assumes "0 < curve_p E"
  shows "reduced (curve_p E) Q \<Longrightarrow> reduced (curve_p E) R \<Longrightarrow>
         multiply_loop Q R n E = Inr S \<Longrightarrow> reduced (curve_p E) S"
  using assms
proof (induction Q R n E rule: multiply_loop.induct)
  case (1 Q R n E)
  show ?case
  proof (cases "0 < n")
    case False
    with "1.prems" show ?thesis by (simp add: multiply_loop_nonpos)
  next
    case True
    from "1.prems"(3) obtain R' Q' where
      R': "(if n mod 2 = 1 then add R Q E else Inr R) = Inr R'"
      and Q': "add Q Q E = Inr Q'"
      and rec: "multiply_loop Q' R' (n div 2) E = Inr S"
      unfolding multiply_loop_unfold [OF True] by (auto split: sum.splits)
    have rR: "reduced (curve_p E) R'"
      using R' "1.prems" add_reduced [of E R Q R'] by (auto split: if_splits)
    have rQ: "reduced (curve_p E) Q'"
      using Q' "1.prems" add_self_reduced by blast
    show ?thesis
      using "1.IH" [OF True R' Q' rQ rR rec "1.prems"(4)] .
  qed
qed

lemma multiply_even_reduced:
  assumes pos: "0 < curve_p E" and ev: "even n" and res: "multiply P n E = Inr S"
  shows "reduced (curve_p E) S"
proof (cases "0 < n")
  case False
  with res have "S = (0, 0)" by (simp add: multiply_def multiply_loop_nonpos)
  then show ?thesis using pos by (simp add: reduced_zero)
next
  case True
  have n2: "n mod 2 \<noteq> 1" using ev by presburger
  from res obtain Q' where Q': "add P P E = Inr Q'"
    and rec: "multiply_loop Q' (0, 0) (n div 2) E = Inr S"
    unfolding multiply_def multiply_loop_unfold [OF True] using n2
    by (auto split: sum.splits)
  have "reduced (curve_p E) Q'" using Q' pos add_self_reduced by blast
  then show ?thesis
    using multiply_loop_reduced [OF pos _ _ rec] pos by (simp add: reduced_zero)
qed

lemma oracle_body_Inr:
  "oracle_body secret E C = Inr S \<Longrightarrow> \<exists>x y. C = Items [Some x, Some y] \<and> multiply (x, y) secret E = Inr S"
proof (cases C)
  case NotIterable
  assume "oracle_body secret E C = Inr S"
  with NotIterable show ?thesis by (simp add: oracle_body_def)
next
  case (Items xs)
  assume a: "oracle_body secret E C = Inr S"
  show ?thesis
  proof (cases xs)
    case Nil
    with a Items show ?thesis by (simp add: oracle_body_def)
  next
    case c1: (Cons i1 r1)
    show ?thesis
    proof (cases r1)
      case Nil
      with a Items c1 show ?thesis by (cases i1) (simp_all add: oracle_body_def)
    next
      case c2: (Cons i2 r2)
      show ?thesis
      proof (cases r2)
        case Nil
        with a Items c1 c2 show ?thesis
          by (cases i1; cases i2) (simp_all add: oracle_body_def)
      next
        case c3: (Cons i3 r3)
        with a Items c1 c2 show ?thesis
          by (cases i1; cases i2; cases i3)
             (auto simp: oracle_body_def split: sum.splits list.splits)
      qed
    qed
  qed
qed

lemma server_oracle_even_reduced:
  assumes "0 < curve_p E" "even secret" "server_oracle secret E C = Some S"
  shows "reduced (curve_p E) S"
proof -
  from assms(3) have "oracle_body secret E C = Inr S"
    by (simp add: server_oracle_def split: sum.splits)
  then obtain x y where "multiply (x, y) secret E = Inr S"
    using oracle_body_Inr by blast
  then show ?thesis using multiply_even_reduced [OF assms(1,2)] by blast
qed

text \<open>
  C6. For every input \<open>C\<close>, \<open>server_oracle(C)\<close> returns either a pair of integers
  reduced mod \<open>p\<close> or \<open>None\<close>, and never raises: the model is a total function into
  \<open>point option\<close> (every exception of the \<open>try\<close> block is the value \<open>None\<close>, and the
  loops of \<open>multiply\<close> and of the inverse end). The returned pair is reduced because
  both modules' \<open>secret\<close> is even: the first pass of the loop of \<open>multiply\<close> leaves
  \<open>R = (0, 0)\<close> and replaces \<open>Q\<close> by a doubled, hence reduced, point.
\<close>

theorem server_oracle_total_reduced:
  "(server_oracle_small_p C = None
      \<or> (\<exists>S. server_oracle_small_p C = Some S \<and> reduced p_small S))
   \<and> (server_oracle_big_p C = None
      \<or> (\<exists>S. server_oracle_big_p C = Some S \<and> reduced p_big S))"
proof -
  have s: "0 < curve_p E_small" "even secret_small" "curve_p E_small = p_small"
    by (simp_all add: E_small_def p_small_def secret_small_def)
  have b: "0 < curve_p E_big" "even secret_big" "curve_p E_big = p_big"
    by (simp_all add: E_big_def p_big_def secret_big_def)
  have "reduced p_small S" if "server_oracle_small_p C = Some S" for S
    using server_oracle_even_reduced [OF s(1,2), of C S] that s(3)
    by (simp add: server_oracle_small_p_def)
  moreover have "reduced p_big S" if "server_oracle_big_p C = Some S" for S
    using server_oracle_even_reduced [OF b(1,2), of C S] that b(3)
    by (simp add: server_oracle_big_p_def)
  ultimately show ?thesis by (cases "server_oracle_small_p C"; cases "server_oracle_big_p C") auto
qed

section \<open>When \<open>add\<close> fails\<close>

lemma not_dvd_small:
  fixes p d :: int
  assumes "d \<noteq> 0" "\<bar>d\<bar> < p"
  shows "\<not> p dvd d"
proof
  assume "p dvd d"
  then have "\<bar>p\<bar> \<le> \<bar>d\<bar>" using assms(1) by (rule dvd_imp_le_int [rotated])
  with assms(2) show False by simp
qed

lemma prime_inverse_succeeds:
  assumes "is_prime p" "\<not> p dvd u"
  shows "\<exists>i. inverse_mod u p = Inr i"
proof -
  have pos: "0 < p" using assms(1) by (simp add: is_prime_iff)
  have g: "gcd u p = 1" using assms by (rule is_prime_coprime)
  from inverse_mod_succeeds [OF pos g] show ?thesis by blast
qed

lemma odd_prime_not_dvd_double:
  assumes pr: "is_prime p" and od: "odd p" and nd: "\<not> p dvd y"
  shows "\<not> p dvd 2 * y"
proof
  assume d: "p dvd 2 * y"
  have "gcd y p = 1" using pr nd by (rule is_prime_coprime)
  then have "coprime p y" by (simp add: coprime_iff_gcd_eq_1 gcd.commute)
  with d have "p dvd 2" by (simp add: coprime_dvd_mult_left_iff)
  then have "p \<le> 2" by (intro zdvd_imp_le) auto
  moreover have "1 < p" using pr by (simp add: is_prime_iff)
  ultimately have "p = 2" by simp
  with od show False by simp
qed

lemma add_succeeds_of_slope:
  assumes "P \<noteq> (0, 0)" "Q \<noteq> (0, 0)" "\<not> (fst P = fst Q \<and> snd P = - snd Q)"
    and "\<exists>l. slope P Q E = Inr l"
  shows "\<exists>R. add P Q E = Inr R"
  using assms(4) add_slope_Inr [OF assms(1-3)] by blast

text \<open>
  C2 (amended). For a prime modulus \<open>p\<close> and points \<open>P\<close>, \<open>Q\<close> with coordinates reduced into
  \<open>[0, p)\<close>, \<open>add(P, Q, E)\<close> returns a point whenever one of the points is \<open>(0, 0)\<close>, or
  the \<open>x\<close> coordinates differ, or \<open>P = Q\<close> and \<open>p\<close> is odd. It does fail with a prime
  modulus, by a slope denominator without inverse, for two points other than \<open>(0, 0)\<close>
  with the same \<open>x\<close>, different \<open>y\<close> and \<open>y1 + y2\<close> not divisible by \<open>p\<close>: no
  membership of a common curve is checked.
\<close>

theorem add_fails_for_prime_modulus:
  assumes pr: "is_prime (curve_p E)"
    and rP: "reduced (curve_p E) P" and rQ: "reduced (curve_p E) Q"
  shows "((P = (0, 0) \<or> Q = (0, 0) \<or> fst P \<noteq> fst Q \<or> (P = Q \<and> odd (curve_p E)))
            \<longrightarrow> (\<exists>R. add P Q E = Inr R))
       \<and> ((P \<noteq> (0, 0) \<and> Q \<noteq> (0, 0) \<and> fst P = fst Q \<and> snd P \<noteq> snd Q
              \<and> (snd P + snd Q) mod curve_p E \<noteq> 0)
            \<longrightarrow> add P Q E = Inl DomainError)"
proof (intro conjI impI)
  assume h: "P = (0, 0) \<or> Q = (0, 0) \<or> fst P \<noteq> fst Q \<or> (P = Q \<and> odd (curve_p E))"
  show "\<exists>R. add P Q E = Inr R"
  proof (cases "P = (0, 0) \<or> Q = (0, 0)")
    case True
    then show ?thesis by (auto simp: add_def)
  next
    case False
    then have Pn: "P \<noteq> (0, 0)" and Qn: "Q \<noteq> (0, 0)" by simp_all
    show ?thesis
    proof (cases "fst P = fst Q")
      case False
      then have ne: "P \<noteq> Q" by auto
      have "fst Q - fst P \<noteq> 0" using False by simp
      moreover have "\<bar>fst Q - fst P\<bar> < curve_p E"
        using rP rQ by (simp add: reduced_def) linarith
      ultimately have "\<not> curve_p E dvd fst Q - fst P" by (rule not_dvd_small)
      then obtain i where "inverse_mod (fst Q - fst P) (curve_p E) = Inr i"
        using prime_inverse_succeeds [OF pr] by blast
      then have "\<exists>l. slope P Q E = Inr l" by (simp add: slope_secant [OF ne])
      then show ?thesis using False by (intro add_succeeds_of_slope [OF Pn Qn]) auto
    next
      case True
      with h False have eq: "P = Q" and od: "odd (curve_p E)" by auto
      show ?thesis
      proof (cases "snd P = 0")
        case True
        then show ?thesis using eq Pn by (simp add: add_inverse_branch)
      next
        case y: False
        have "\<bar>snd P\<bar> < curve_p E" using rP by (simp add: reduced_def)
        with y have "\<not> curve_p E dvd snd P" by (rule not_dvd_small)
        then have "\<not> curve_p E dvd 2 * snd P"
          using pr od by (intro odd_prime_not_dvd_double)
        then obtain i where "inverse_mod (2 * snd P) (curve_p E) = Inr i"
          using prime_inverse_succeeds [OF pr] by blast
        then have "\<exists>l. slope P P E = Inr l" by (simp add: slope_tangent)
        then show ?thesis using y eq Pn
          by (intro add_succeeds_of_slope) auto
      qed
    qed
  qed
next
  assume h: "P \<noteq> (0, 0) \<and> Q \<noteq> (0, 0) \<and> fst P = fst Q \<and> snd P \<noteq> snd Q
              \<and> (snd P + snd Q) mod curve_p E \<noteq> 0"
  then have ne: "P \<noteq> Q" by auto
  have ninv: "\<not> (fst P = fst Q \<and> snd P = - snd Q)" using h by auto
  have p1: "1 < curve_p E" using pr by (simp add: is_prime_iff)
  then have "gcd (fst Q - fst P) (curve_p E) \<noteq> 1" using h by simp
  then have "inverse_mod (fst Q - fst P) (curve_p E) = Inl DomainError"
    using p1 by (intro inverse_mod_fails) auto
  then have "slope P Q E = Inl DomainError" by (simp add: slope_secant [OF ne])
  then show "add P Q E = Inl DomainError"
    using h ninv by (intro add_slope_Inl) auto
qed

theorem add_fails_for_prime_modulus_witness:
  "is_prime (curve_p E5) \<and> reduced (curve_p E5) (1, 1) \<and> reduced (curve_p E5) (2, 3)
   \<and> reduced (curve_p E5) (1, 2)
   \<and> (\<exists>R. add (1, 1) (2, 3) E5 = Inr R)
   \<and> add (1, 1) (1, 2) E5 = Inl DomainError"
proof -
  have pr: "is_prime (curve_p E5)" by (simp add: E5_def is_prime_def)
  have r1: "reduced (curve_p E5) (1, 1)" and r2: "reduced (curve_p E5) (2, 3)"
    and r3: "reduced (curve_p E5) (1, 2)"
    by (simp_all add: E5_def reduced_def)
  have m: "((1::int) + 2) mod curve_p E5 \<noteq> 0" by (simp add: E5_def)
  show ?thesis
    using pr r1 r2 r3 m add_fails_for_prime_modulus [OF pr r1 r2]
      add_fails_for_prime_modulus [OF pr r1 r3]
    by simp
qed

text \<open>
  The claim C2 as stated (no failure for a prime modulus and reduced points) is false
  at \<open>p = 5\<close>, \<open>P = (1, 1)\<close>, \<open>Q = (1, 2)\<close>.
\<close>

theorem add_fails_counterexample:
  "is_prime 5 \<and> reduced 5 (1, 1) \<and> reduced 5 (1, 2)
   \<and> add (1, 1) (1, 2) \<lparr>curve_a = 1, curve_b = 1, curve_p = 5\<rparr> = Inl DomainError"
  by (simp add: is_prime_def reduced_def add_def slope_def inverse_mod_def inverse_loop.simps)

lemma inverse_points_small_field:
  "is_prime 5 \<and> odd (5::int) \<and> reduced 5 (1, 1) \<and> reduced 5 (1, 4) \<and> ((1::int) + 4) mod 5 = 0
   \<and> add (1, 1) (1, 4) E5 = Inl DomainError"
  by (simp add: is_prime_def reduced_def add_def slope_def inverse_mod_def inverse_loop.simps
        E5_def)

lemma inverse_points_order_three:
  "reduced p_small (2, 137721114648879417761985570)
   \<and> (137721114648879417761985570 :: int)\<^sup>2 mod p_small
       = (2 ^ 3 + a_small * 2 + 146317092989342842313061106) mod p_small
   \<and> add (2, 137721114648879417761985570) (2, 137721114648879417761985570) E_small
       = Inr (2, p_small - 137721114648879417761985570)
   \<and> add (2, p_small - 137721114648879417761985570) (2, 137721114648879417761985570) E_small
       = Inl DomainError
   \<and> server_oracle_small_p (Items [Some 2, Some 137721114648879417761985570]) = None"
  by code_simp

text \<open>
  C1. For an odd prime \<open>p\<close> and reduced points \<open>P = (x, y1)\<close>, \<open>Q = (x, y2)\<close> with
  \<open>y1 + y2\<close> divisible by \<open>p\<close>, \<open>add(P, Q, E)\<close> should return \<open>(0, 0)\<close>. The test
  \<open>y1 == -y2\<close> of the code compares integers, so for reduced coordinates it holds only
  when both are \<open>0\<close>, and the code goes on to the secant slope, where the inverse of
  \<open>0\<close> raises. This is evaluated for \<open>p = 5\<close>, \<open>P = (1, 1)\<close>, \<open>Q = (1, 4)\<close>, and for the
  small test server with the point \<open>T = (2, 137721114648879417761985570)\<close> of order three
  on the curve with \<open>b = 146317092989342842313061106\<close>: \<open>add(T, T)\<close> is \<open>-T\<close>,
  \<open>add(-T, T)\<close> raises, and the oracle, whose double-and-add reaches that sum, answers
  \<open>None\<close> to \<open>T\<close>.
\<close>

theorem add_of_inverse_points_raises:
  "(is_prime 5 \<and> odd (5::int) \<and> reduced 5 (1, 1) \<and> reduced 5 (1, 4) \<and> ((1::int) + 4) mod 5 = 0
    \<and> add (1, 1) (1, 4) E5 = Inl DomainError)
   \<and> (reduced p_small (2, 137721114648879417761985570)
    \<and> (137721114648879417761985570 :: int)\<^sup>2 mod p_small
        = (2 ^ 3 + a_small * 2 + 146317092989342842313061106) mod p_small
    \<and> add (2, 137721114648879417761985570) (2, 137721114648879417761985570) E_small
        = Inr (2, p_small - 137721114648879417761985570)
    \<and> add (2, p_small - 137721114648879417761985570) (2, 137721114648879417761985570) E_small
        = Inl DomainError
    \<and> server_oracle_small_p (Items [Some 2, Some 137721114648879417761985570]) = None)"
  using inverse_points_small_field inverse_points_order_three by (rule conjI)

section \<open>When the oracle answers \<open>None\<close>\<close>

lemma well_formed_iff: "well_formed C \<longleftrightarrow> (\<exists>x y. C = Items [Some x, Some y])"
  by (induction C rule: well_formed.induct) simp_all

lemma oracle_body_pair:
  "oracle_body secret E (Items [Some x, Some y]) = multiply (x, y) secret E"
  by (simp add: oracle_body_def)

lemma server_oracle_pair:
  "server_oracle secret E (Items [Some x, Some y]) =
     (case multiply (x, y) secret E of Inl e \<Rightarrow> None | Inr S \<Rightarrow> Some S)"
  by (simp add: server_oracle_def oracle_body_pair)

lemma server_oracle_malformed:
  assumes "\<not> well_formed C"
  shows "server_oracle secret E C = None"
proof (cases "oracle_body secret E C")
  case (Inl e)
  then show ?thesis by (simp add: server_oracle_def)
next
  case (Inr S)
  then have "well_formed C" using oracle_body_Inr well_formed_iff by blast
  with assms show ?thesis by simp
qed

lemma double_fails:
  assumes p1: "1 < curve_p E" and y0: "y \<noteq> 0" and dv: "curve_p E dvd y"
  shows "add (x, y) (x, y) E = Inl DomainError"
proof -
  have Pn: "(x, y) \<noteq> (0, 0)" using y0 by simp
  have ninv: "\<not> (fst (x, y) = fst (x, y) \<and> snd (x, y) = - snd (x, y))" using y0 by simp
  have "curve_p E dvd 2 * y" using dv by simp
  then have "gcd (2 * y) (curve_p E) = curve_p E" using p1 by (simp add: gcd_proj2_iff)
  then have "gcd (2 * y) (curve_p E) \<noteq> 1" using p1 by simp
  then have "inverse_mod (2 * y) (curve_p E) = Inl DomainError"
    using p1 by (intro inverse_mod_fails) auto
  then have "slope (x, y) (x, y) E = Inl DomainError" by (simp add: slope_tangent)
  then show ?thesis by (rule add_slope_Inl [OF Pn Pn ninv])
qed

lemma multiply_fails:
  assumes s: "0 < secret" and p1: "1 < curve_p E" and y0: "y \<noteq> 0" and dv: "curve_p E dvd y"
  shows "multiply (x, y) secret E = Inl DomainError"
proof -
  have d: "add (x, y) (x, y) E = Inl DomainError" using p1 y0 dv by (rule double_fails)
  have a: "add (0, 0) (x, y) E = Inr (x, y)" by (simp add: add_def)
  show ?thesis
    unfolding multiply_def multiply_loop_unfold [OF s] d a
    by (simp split: sum.splits)
qed

text \<open>
  C3 (amended). \<open>server_oracle\<close> returns \<open>None\<close> for every malformed input, and for a
  well-formed pair of integers it returns \<open>None\<close> exactly when \<open>multiply\<close> raises and the
  scalar-multiplied point otherwise. \<open>multiply\<close> does raise on well-formed pairs: for a
  positive secret and a modulus above \<open>1\<close>, every pair \<open>(x, y)\<close> whose \<open>y\<close> is a non-zero
  multiple of \<open>p\<close> makes the first doubling fail, since the coordinates of the input
  are not reduced before use.
\<close>

theorem server_oracle_none_cases:
  "(\<not> well_formed C \<longrightarrow> server_oracle secret E C = None)
   \<and> server_oracle secret E (Items [Some x, Some y])
        = (case multiply (x, y) secret E of Inl e \<Rightarrow> None | Inr S \<Rightarrow> Some S)
   \<and> (0 < secret \<and> 1 < curve_p E \<and> y' \<noteq> 0 \<and> curve_p E dvd y'
        \<longrightarrow> server_oracle secret E (Items [Some x', Some y']) = None)"
  by (simp add: server_oracle_malformed server_oracle_pair multiply_fails)

lemma multiply_example:
  "multiply (3, 7) 5 E_small
     = Inr (137817995706576555754807116, 121507036426546914323281227)"
  by code_simp

theorem server_oracle_none_cases_witness:
  "\<not> well_formed NotIterable \<and> server_oracle 5 E_small NotIterable = None
   \<and> server_oracle 5 E_small (Items [Some 3, Some 7])
        = Some (137817995706576555754807116, 121507036426546914323281227)
   \<and> (0::int) < 5 \<and> 1 < curve_p E_small \<and> p_small \<noteq> 0 \<and> curve_p E_small dvd p_small
   \<and> server_oracle 5 E_small (Items [Some 1, Some p_small]) = None"
proof -
  have h: "(0::int) < 5" "1 < curve_p E_small" "p_small \<noteq> 0" "curve_p E_small dvd p_small"
    by (simp_all add: E_small_def p_small_def)
  have w: "\<not> well_formed NotIterable" by simp
  show ?thesis
    using h w multiply_example
      server_oracle_none_cases [of NotIterable 5 E_small 3 7 p_small 1]
    by simp
qed

text \<open>
  The claim C3 as stated (\<open>None\<close> only for malformed input) is false for the small test
  server at the well-formed pair \<open>(1, p)\<close>.
\<close>

theorem server_oracle_none_counterexample:
  "well_formed (Items [Some 1, Some p_small])
   \<and> server_oracle_small_p (Items [Some 1, Some p_small]) = None"
proof -
  have h: "0 < secret_small" "1 < curve_p E_small" "p_small \<noteq> 0" "curve_p E_small dvd p_small"
    by (simp_all add: secret_small_def E_small_def p_small_def)
  have "multiply (1, p_small) secret_small E_small = Inl DomainError"
    using h by (rule multiply_fails)
  then show ?thesis
    by (simp add: server_oracle_small_p_def server_oracle_pair)
qed

section \<open>Independence of \<open>b\<close>\<close>

text \<open>
  C4. The group law of the oracle does not depend on the coefficient \<open>b\<close>: two curve
  environments with the same \<open>p\<close> and \<open>a\<close> give the same results of \<open>add\<close> and
  \<open>multiply\<close> on every input, and so the same answer of the oracle to every request;
  no check of \<open>y^2 = x^3 + a*x + b\<close> takes place.
\<close>

theorem group_law_ignores_b:
  assumes "curve_a E1 = curve_a E2" and "curve_p E1 = curve_p E2"
  shows "add P Q E1 = add P Q E2
       \<and> multiply P n E1 = multiply P n E2
       \<and> server_oracle secret E1 C = server_oracle secret E2 C"
proof -
  have m: "\<And>P n. multiply P n E1 = multiply P n E2"
    unfolding multiply_def by (rule multiply_loop_b_independent [OF assms])
  have "oracle_body secret E1 C = oracle_body secret E2 C"
    unfolding oracle_body_def m by (rule refl)
  then show ?thesis using m add_b_independent [OF assms]
    by (simp add: server_oracle_def)
qed

theorem group_law_ignores_b_witness:
  "curve_b E_small \<noteq> curve_b (E_small\<lparr>curve_b := 1\<rparr>)
   \<and> add (3, 7) (5, 11) E_small = add (3, 7) (5, 11) (E_small\<lparr>curve_b := 1\<rparr>)
   \<and> multiply (3, 7) 5 E_small = multiply (3, 7) 5 (E_small\<lparr>curve_b := 1\<rparr>)
   \<and> server_oracle 5 E_small (Items [Some 3, Some 7])
       = server_oracle 5 (E_small\<lparr>curve_b := 1\<rparr>) (Items [Some 3, Some 7])"
proof -
  have a: "curve_a E_small = curve_a (E_small\<lparr>curve_b := 1\<rparr>)" by simp
  have p: "curve_p E_small = curve_p (E_small\<lparr>curve_b := 1\<rparr>)" by simp
  have b: "curve_b E_small \<noteq> curve_b (E_small\<lparr>curve_b := 1\<rparr>)"
    by (simp add: E_small_def b_small_def)
  show ?thesis
    using b group_law_ignores_b [OF a p, of "(3, 7)" "(5, 11)" 5 5 "Items [Some 3, Some 7]"]
    by blast
qed

section \<open>The retry loop\<close>

lemma retry_loop_unfold:
  "s < m \<Longrightarrow> retry_loop truthy func s m r0 =
     (case run_func_with_timeout func s of
        Inl e \<Rightarrow> ([s], Inl e)
      | Inr r \<Rightarrow>
          if is_truthy truthy r then ([s], Inr r)
          else (case retry_loop truthy func (s + 1) m r of
                  (ds, res) \<Rightarrow> (s # ds, res)))"
  by (subst retry_loop.simps) simp

lemma retry_loop_done: "\<not> s < m \<Longrightarrow> retry_loop truthy func s m r0 = ([], Inr r0)"
  by (subst retry_loop.simps) simp

lemma retry_loop_result_irrelevant:
  "s < m \<Longrightarrow> retry_loop truthy func s m r0 = retry_loop truthy func s m r1"
  by (simp add: retry_loop_unfold)

lemma upto_step: "s < m \<Longrightarrow> [s..m - 1] = s # [s + 1..m - 1]"
  by (simp add: upto_rec1)

lemma retry_loop_all_falsy:
  assumes "\<And>d. s \<le> d \<Longrightarrow> d < m \<Longrightarrow>
             \<exists>v. run_func_with_timeout func d = Inr v \<and> \<not> is_truthy truthy v"
    and "s < m"
  shows "retry_loop truthy func s m r0 = ([s..m - 1], run_func_with_timeout func (m - 1))"
  using assms
proof (induction truthy func s m r0 rule: retry_loop.induct)
  case (1 truthy func s m r0)
  from "1.prems"(1) [of s] "1.prems"(2) obtain v where
    v: "run_func_with_timeout func s = Inr v" "\<not> is_truthy truthy v" by auto
  show ?case
  proof (cases "s + 1 < m")
    case True
    have "retry_loop truthy func (s + 1) m v
            = ([s + 1..m - 1], run_func_with_timeout func (m - 1))"
      using "1.IH" [OF "1.prems"(2) v(1) v(2)] "1.prems"(1) True by simp
    then show ?thesis using v "1.prems"(2)
      by (simp add: retry_loop_unfold upto_step)
  next
    case False
    with "1.prems"(2) have m: "m - 1 = s" by simp
    have "retry_loop truthy func (s + 1) m v = ([], Inr v)"
      using False by (rule retry_loop_done)
    then show ?thesis using v "1.prems"(2) m
      by (simp add: retry_loop_unfold)
  qed
qed

lemma retry_loop_first_truthy:
  assumes "\<And>d. s \<le> d \<Longrightarrow> d < k \<Longrightarrow>
             \<exists>v. run_func_with_timeout func d = Inr v \<and> \<not> is_truthy truthy v"
    and "s \<le> k" "k < m"
    and "run_func_with_timeout func k = Inr r" "is_truthy truthy r"
  shows "retry_loop truthy func s m r0 = ([s..k], Inr r)"
  using assms
proof (induction truthy func s m r0 rule: retry_loop.induct)
  case (1 truthy func s m r0)
  have sm: "s < m" using "1.prems" by simp
  show ?case
  proof (cases "s = k")
    case True
    then show ?thesis using "1.prems" sm by (simp add: retry_loop_unfold)
  next
    case False
    then have sk: "s < k" using "1.prems"(2) by simp
    from "1.prems"(1) [of s] sk obtain v where
      v: "run_func_with_timeout func s = Inr v" "\<not> is_truthy truthy v" by auto
    have "retry_loop truthy func (s + 1) m v = ([s + 1..k], Inr r)"
      using "1.IH" [OF sm v(1) v(2)] "1.prems" sk by simp
    then show ?thesis using v sm sk
      by (simp add: retry_loop_unfold upto_rec1)
  qed
qed

lemma retry_loop_length:
  "length (fst (retry_loop truthy func s m r0)) \<le> nat (m - s)"
proof (induction truthy func s m r0 rule: retry_loop.induct)
  case (1 truthy func s m r0)
  show ?case
  proof (cases "s < m")
    case False
    then show ?thesis by (simp add: retry_loop_done)
  next
    case True
    show ?thesis
    proof (cases "run_func_with_timeout func s")
      case (Inl e)
      then show ?thesis using True by (simp add: retry_loop_unfold)
    next
      case (Inr r)
      show ?thesis
      proof (cases "is_truthy truthy r")
        case t: True
        then show ?thesis using True Inr by (simp add: retry_loop_unfold)
      next
        case f: False
        have "length (fst (retry_loop truthy func (s + 1) m r)) \<le> nat (m - (s + 1))"
          using "1.IH" [OF True Inr f] .
        then show ?thesis using True Inr f
          by (simp add: retry_loop_unfold case_prod_unfold)
      qed
    qed
  qed
qed

lemma retry_loop_early_truthy:
  "retry_loop truthy func s m r0 = (ds, Inr r) \<Longrightarrow> length ds < nat (m - s) \<Longrightarrow>
   is_truthy truthy r"
proof (induction truthy func s m r0 arbitrary: ds rule: retry_loop.induct)
  case (1 truthy func s m r0)
  show ?case
  proof (cases "s < m")
    case False
    with "1.prems" show ?thesis by (simp add: retry_loop_done)
  next
    case True
    show ?thesis
    proof (cases "run_func_with_timeout func s")
      case (Inl e)
      with "1.prems" True show ?thesis by (simp add: retry_loop_unfold)
    next
      case (Inr r1)
      show ?thesis
      proof (cases "is_truthy truthy r1")
        case t: True
        with "1.prems" True Inr show ?thesis by (simp add: retry_loop_unfold)
      next
        case f: False
        obtain ds' res where rec: "retry_loop truthy func (s + 1) m r1 = (ds', res)"
          by (cases "retry_loop truthy func (s + 1) m r1") auto
        with "1.prems"(1) True Inr f have e: "ds = s # ds'" "res = Inr r"
          by (simp_all add: retry_loop_unfold)
        have "length ds' < nat (m - (s + 1))" using "1.prems"(2) e(1) True by simp
        then show ?thesis using "1.IH" [OF True Inr f, of ds'] rec e(2) by simp
      qed
    qed
  qed
qed

lemma run_func_upd_other:
  "s \<noteq> d \<Longrightarrow> run_func_with_timeout (func(d := x)) s = run_func_with_timeout func s"
  by (simp add: run_func_with_timeout_def)

lemma retry_loop_falsy_as_timeout:
  assumes "func d = Returns v" "\<not> is_truthy truthy v" "d + 1 < m"
  shows "retry_loop truthy (func(d := TimesOut)) s m r0 = retry_loop truthy func s m r0"
proof -
  define f where "f = func(d := TimesOut)"
  have other: "run_func_with_timeout f s = run_func_with_timeout func s" if "s \<noteq> d" for s
    unfolding f_def using that by (rule run_func_upd_other)
  have at_d: "run_func_with_timeout f d = Inr None" if "0 < d"
    using that by (simp add: f_def run_func_with_timeout_def)
  have at_d': "run_func_with_timeout func d = Inr v" if "0 < d"
    using that assms(1) by (simp add: run_func_with_timeout_def)
  have neg: "run_func_with_timeout f d = run_func_with_timeout func d" if "\<not> 0 < d"
    using that by (simp add: run_func_with_timeout_def)
  have "retry_loop truthy f s m r0 = retry_loop truthy func s m r0"
    using assms(2,3) other at_d at_d' neg
  proof (induction truthy func s m r0 rule: retry_loop.induct)
    case (1 truthy func s m r0)
    note other = "1.prems"(3) and at_d = "1.prems"(4) and at_d' = "1.prems"(5)
      and neg = "1.prems"(6)
    show ?case
    proof (cases "s < m")
      case False
      then show ?thesis by (simp add: retry_loop_done)
    next
      case True
      show ?thesis
      proof (cases "s = d")
        case ne: False
        show ?thesis
        proof (cases "run_func_with_timeout func s")
          case (Inl e)
          then show ?thesis using True other [OF ne] by (simp add: retry_loop_unfold)
        next
          case (Inr r)
          show ?thesis
          proof (cases "is_truthy truthy r")
            case t: True
            then show ?thesis using True other [OF ne] Inr by (simp add: retry_loop_unfold)
          next
            case f: False
            have "retry_loop truthy f (s + 1) m r = retry_loop truthy func (s + 1) m r"
              using "1.IH" [OF True Inr f] "1.prems" by blast
            then show ?thesis using True other [OF ne] Inr f by (simp add: retry_loop_unfold)
          qed
        qed
      next
        case eq: True
        show ?thesis
        proof (cases "0 < d")
          case False
          then show ?thesis using True eq neg
            by (simp add: retry_loop_unfold run_func_with_timeout_def)
        next
          case pos: True
          have r1: "run_func_with_timeout func s = Inr v" using eq at_d' [OF pos] by simp
          have r2: "run_func_with_timeout f s = Inr None" using eq at_d [OF pos] by simp
          have "retry_loop truthy f (s + 1) m v = retry_loop truthy func (s + 1) m v"
            using "1.IH" [OF True r1 "1.prems"(1)] "1.prems" by blast
          moreover have "retry_loop truthy f (s + 1) m None = retry_loop truthy f (s + 1) m v"
            using eq "1.prems"(2) by (intro retry_loop_result_irrelevant) simp
          ultimately show ?thesis using True r1 r2 "1.prems"(1)
            by (simp add: retry_loop_unfold is_truthy_def)
        qed
      qed
    qed
  qed
  then show ?thesis by (simp only: f_def)
qed

lemma loop_log_valid:
  "0 < timeout \<Longrightarrow> timeout < max_timeout \<Longrightarrow>
   loop_func_with_timeout_log truthy func timeout (Passed (Some max_timeout))
     = retry_loop truthy func timeout max_timeout None"
  by (simp add: loop_func_with_timeout_log_def)


text \<open>
  C7. \<open>loop_func_with_timeout\<close> retries with an escalating deadline. With
  \<open>0 < timeout < max_timeout\<close>, and a failed attempt being one whose
  \<open>run_func_with_timeout\<close> gives \<open>None\<close> (the deadline expired): the first attempt runs
  under \<open>timeout\<close>, each failed attempt is followed by one under the deadline plus
  \<open>1\<close>, and the first attempt with a true result ends the loop with that result; when
  every attempt below the ceiling fails, the attempts are exactly those under
  \<open>timeout, ..., max_timeout - 1\<close>, none is made at the ceiling, and the result is
  \<open>None\<close>. Whatever the function does, at most \<open>max_timeout - timeout\<close> attempts are
  made, so the call returns; without the keyword the ceiling is \<open>timeout + 5\<close>.
\<close>

theorem loop_func_with_timeout_escalates:
  assumes "0 < timeout" and "timeout < max_timeout"
  shows "((\<forall>d. timeout \<le> d \<and> d < max_timeout \<longrightarrow> run_func_with_timeout func d = Inr None)
            \<longrightarrow> loop_func_with_timeout_log truthy func timeout (Passed (Some max_timeout))
                  = ([timeout..max_timeout - 1], Inr None)
                \<and> loop_func_with_timeout truthy func timeout (Passed (Some max_timeout))
                  = Inr None)
       \<and> ((timeout \<le> k \<and> k < max_timeout
              \<and> (\<forall>d. timeout \<le> d \<and> d < k \<longrightarrow> run_func_with_timeout func d = Inr None)
              \<and> run_func_with_timeout func k = Inr r \<and> is_truthy truthy r)
            \<longrightarrow> loop_func_with_timeout_log truthy func timeout (Passed (Some max_timeout))
                  = ([timeout..k], Inr r)
                \<and> loop_func_with_timeout truthy func timeout (Passed (Some max_timeout))
                  = Inr r)
       \<and> length (fst (loop_func_with_timeout_log truthy func timeout (Passed (Some max_timeout))))
            \<le> nat (max_timeout - timeout)
       \<and> loop_func_with_timeout_log truthy func timeout NotPassed
            = loop_func_with_timeout_log truthy func timeout (Passed (Some (timeout + 5)))"
proof (intro conjI impI)
  note v = loop_log_valid [OF assms]
  {
    assume a: "\<forall>d. timeout \<le> d \<and> d < max_timeout \<longrightarrow> run_func_with_timeout func d = Inr None"
    have f: "\<exists>v. run_func_with_timeout func d = Inr v \<and> \<not> is_truthy truthy v"
      if "timeout \<le> d" "d < max_timeout" for d
      using a that by (simp add: is_truthy_def)
    have "retry_loop truthy func timeout max_timeout None
            = ([timeout..max_timeout - 1], run_func_with_timeout func (max_timeout - 1))"
      using f assms(2) by (rule retry_loop_all_falsy)
    moreover have "run_func_with_timeout func (max_timeout - 1) = Inr None"
      using a assms(2) by simp
    ultimately show l: "loop_func_with_timeout_log truthy func timeout (Passed (Some max_timeout))
                  = ([timeout..max_timeout - 1], Inr None)"
      by (simp add: v)
    then show "loop_func_with_timeout truthy func timeout (Passed (Some max_timeout)) = Inr None"
      by (simp add: loop_func_with_timeout_def)
  }
  {
    assume a: "timeout \<le> k \<and> k < max_timeout
              \<and> (\<forall>d. timeout \<le> d \<and> d < k \<longrightarrow> run_func_with_timeout func d = Inr None)
              \<and> run_func_with_timeout func k = Inr r \<and> is_truthy truthy r"
    have f: "\<exists>v. run_func_with_timeout func d = Inr v \<and> \<not> is_truthy truthy v"
      if "timeout \<le> d" "d < k" for d
      using a that by (simp add: is_truthy_def)
    have "retry_loop truthy func timeout max_timeout None = ([timeout..k], Inr r)"
      using f a by (intro retry_loop_first_truthy) auto
    then show l: "loop_func_with_timeout_log truthy func timeout (Passed (Some max_timeout))
                  = ([timeout..k], Inr r)"
      by (simp add: v)
    then show "loop_func_with_timeout truthy func timeout (Passed (Some max_timeout)) = Inr r"
      by (simp add: loop_func_with_timeout_def)
  }
  show "length (fst (loop_func_with_timeout_log truthy func timeout (Passed (Some max_timeout))))
            \<le> nat (max_timeout - timeout)"
    by (simp add: v retry_loop_length)
  show "loop_func_with_timeout_log truthy func timeout NotPassed
            = loop_func_with_timeout_log truthy func timeout (Passed (Some (timeout + 5)))"
    by (simp add: loop_func_with_timeout_log_def)
qed

theorem loop_func_with_timeout_escalates_witness:
  "loop_func_with_timeout_log (\<lambda>n::int. n \<noteq> 0) (\<lambda>d. TimesOut) 1 (Passed (Some 4))
     = ([1, 2, 3], Inr None)
   \<and> loop_func_with_timeout (\<lambda>n::int. n \<noteq> 0) (\<lambda>d. TimesOut) 1 (Passed (Some 4)) = Inr None
   \<and> loop_func_with_timeout_log (\<lambda>n::int. n \<noteq> 0)
         (\<lambda>d. if d < 2 then TimesOut else Returns (Some 7)) 1 (Passed (Some 4))
     = ([1, 2], Inr (Some 7))"
proof -
  have t: "(0::int) < 1" "(1::int) < 4" by simp_all
  have u: "[1..(4::int) - 1] = [1, 2, 3]" "[1..(2::int)] = [1, 2]"
    by (simp_all add: upto_rec1)
  have a: "\<forall>d. (1::int) \<le> d \<and> d < 4 \<longrightarrow>
             run_func_with_timeout (\<lambda>d. TimesOut :: int outcome) d = Inr None"
    by (simp add: run_func_with_timeout_def)
  have b: "(1::int) \<le> 2 \<and> (2::int) < 4
      \<and> (\<forall>d. 1 \<le> d \<and> d < 2 \<longrightarrow>
            run_func_with_timeout (\<lambda>d. if d < 2 then TimesOut else Returns (Some (7::int))) d
              = Inr None)
      \<and> run_func_with_timeout (\<lambda>d. if d < 2 then TimesOut else Returns (Some (7::int))) 2
            = Inr (Some 7)
      \<and> is_truthy (\<lambda>n::int. n \<noteq> 0) (Some 7)"
    by (simp add: run_func_with_timeout_def is_truthy_def)
  show ?thesis
    using a b u
      loop_func_with_timeout_escalates [OF t, where func = "\<lambda>d. TimesOut :: int outcome"
        and truthy = "\<lambda>n::int. n \<noteq> 0"]
      loop_func_with_timeout_escalates [OF t,
        where func = "\<lambda>d. if d < 2 then TimesOut else Returns (Some (7::int))"
        and truthy = "\<lambda>n::int. n \<noteq> 0" and k = 2 and r = "Some 7"]
    by simp
qed

lemma early_return_example:
  "loop_func_with_timeout_log (\<lambda>n::int. n \<noteq> 0) (\<lambda>d. Returns (Some 7)) 1 (Passed (Some 4))
     = ([1], Inr (Some 7))"
  by (simp add: loop_func_with_timeout_log_def retry_loop.simps run_func_with_timeout_def
        is_truthy_def)

lemma run_func_Inl_source:
  "0 < s \<Longrightarrow> run_func_with_timeout func s = Inl e \<Longrightarrow> func s = Raises e"
  by (auto simp: run_func_with_timeout_def split: outcome.splits)

lemma retry_loop_early_exit:
  "0 < s \<Longrightarrow> retry_loop truthy func s m r0 = (ds, res) \<Longrightarrow> length ds < nat (m - s) \<Longrightarrow>
   (\<exists>r. res = Inr r \<and> is_truthy truthy r)
   \<or> (\<exists>e. res = Inl e \<and> ds \<noteq> [] \<and> func (last ds) = Raises e)"
proof (induction truthy func s m r0 arbitrary: ds res rule: retry_loop.induct)
  case (1 truthy func s m r0)
  show ?case
  proof (cases "s < m")
    case False
    with "1.prems" show ?thesis by (simp add: retry_loop_done)
  next
    case True
    show ?thesis
    proof (cases "run_func_with_timeout func s")
      case (Inl e)
      then have "func s = Raises e" using "1.prems"(1) by (intro run_func_Inl_source)
      moreover have "ds = [s]" "res = Inl e"
        using "1.prems"(2) True Inl by (simp_all add: retry_loop_unfold)
      ultimately show ?thesis by simp
    next
      case (Inr r1)
      show ?thesis
      proof (cases "is_truthy truthy r1")
        case t: True
        have "res = Inr r1" using "1.prems"(2) True Inr t by (simp add: retry_loop_unfold)
        with t show ?thesis by blast
      next
        case f: False
        obtain ds' res' where rec: "retry_loop truthy func (s + 1) m r1 = (ds', res')"
          by (cases "retry_loop truthy func (s + 1) m r1") auto
        with "1.prems"(2) True Inr f have e: "ds = s # ds'" "res = res'"
          by (simp_all add: retry_loop_unfold)
        have len: "length ds' < nat (m - (s + 1))" using "1.prems"(3) e(1) True by simp
        have pos: "0 < s + 1" using "1.prems"(1) by simp
        from "1.IH" [OF True Inr f pos rec len]
        show ?thesis using e by auto
      qed
    qed
  qed
qed

lemma retry_loop_first_raise:
  assumes "\<And>d. s \<le> d \<Longrightarrow> d < k \<Longrightarrow>
             \<exists>v. run_func_with_timeout func d = Inr v \<and> \<not> is_truthy truthy v"
    and "s \<le> k" "k < m"
    and "run_func_with_timeout func k = Inl e"
  shows "retry_loop truthy func s m r0 = ([s..k], Inl e)"
  using assms
proof (induction truthy func s m r0 rule: retry_loop.induct)
  case (1 truthy func s m r0)
  have sm: "s < m" using "1.prems" by simp
  show ?case
  proof (cases "s = k")
    case True
    then show ?thesis using "1.prems" sm by (simp add: retry_loop_unfold)
  next
    case False
    then have sk: "s < k" using "1.prems"(2) by simp
    from "1.prems"(1) [of s] sk obtain v where
      v: "run_func_with_timeout func s = Inr v" "\<not> is_truthy truthy v" by auto
    have "retry_loop truthy func (s + 1) m v = ([s + 1..k], Inl e)"
      using "1.IH" [OF sm v(1) v(2)] "1.prems" sk by simp
    then show ?thesis using v sm sk
      by (simp add: retry_loop_unfold upto_rec1)
  qed
qed

text \<open>
  C10 (amended). \<open>loop_func_with_timeout\<close> stops before the last attempt only when an
  attempt returns a true value, which is then returned, or when an attempt raises an
  exception other than the timeout: \<open>run_func_with_timeout\<close> catches the timeout only,
  so the exception ends the loop at that attempt and reaches the caller. An attempt that
  completes within its deadline with a false result (\<open>0\<close>, an empty list, \<open>None\<close>) is
  retried with a larger deadline like a timeout: replacing such an outcome by a timeout
  at any attempt but the last changes neither the attempts made nor the result. Only at
  the last attempt the false result shows: when every attempt gives a false result, the
  value returned is the one of the attempt under \<open>max_timeout - 1\<close>.
\<close>

theorem early_exit_is_truthy_or_exception:
  assumes "0 < timeout" and "timeout < max_timeout"
  shows "((loop_func_with_timeout_log truthy func timeout (Passed (Some max_timeout)) = (ds, res)
             \<and> length ds < nat (max_timeout - timeout))
            \<longrightarrow> (\<exists>r. res = Inr r \<and> is_truthy truthy r)
                \<or> (\<exists>e. res = Inl e \<and> ds \<noteq> [] \<and> func (last ds) = Raises e))
       \<and> ((timeout \<le> k \<and> k < max_timeout
              \<and> (\<forall>d. timeout \<le> d \<and> d < k \<longrightarrow>
                    (\<exists>v. run_func_with_timeout func d = Inr v \<and> \<not> is_truthy truthy v))
              \<and> func k = Raises e)
            \<longrightarrow> loop_func_with_timeout_log truthy func timeout (Passed (Some max_timeout))
                  = ([timeout..k], Inl e))
       \<and> ((func d = Returns v \<and> \<not> is_truthy truthy v \<and> d + 1 < max_timeout)
            \<longrightarrow> loop_func_with_timeout_log truthy (func(d := TimesOut)) timeout
                    (Passed (Some max_timeout))
                  = loop_func_with_timeout_log truthy func timeout (Passed (Some max_timeout)))
       \<and> ((\<forall>d. timeout \<le> d \<and> d < max_timeout \<longrightarrow>
                 (\<exists>v. run_func_with_timeout func d = Inr v \<and> \<not> is_truthy truthy v))
            \<longrightarrow> loop_func_with_timeout_log truthy func timeout (Passed (Some max_timeout))
                  = ([timeout..max_timeout - 1], run_func_with_timeout func (max_timeout - 1)))"
proof (intro conjI impI)
  assume "loop_func_with_timeout_log truthy func timeout (Passed (Some max_timeout)) = (ds, res)
             \<and> length ds < nat (max_timeout - timeout)"
  then show "(\<exists>r. res = Inr r \<and> is_truthy truthy r)
                \<or> (\<exists>e. res = Inl e \<and> ds \<noteq> [] \<and> func (last ds) = Raises e)"
    using retry_loop_early_exit [OF assms(1), of truthy func max_timeout None ds res]
    by (simp add: loop_log_valid [OF assms])
next
  assume a: "timeout \<le> k \<and> k < max_timeout
              \<and> (\<forall>d. timeout \<le> d \<and> d < k \<longrightarrow>
                    (\<exists>v. run_func_with_timeout func d = Inr v \<and> \<not> is_truthy truthy v))
              \<and> func k = Raises e"
  then have "0 < k" using assms(1) by simp
  then have r: "run_func_with_timeout func k = Inl e"
    using a by (simp add: run_func_with_timeout_def)
  have "retry_loop truthy func timeout max_timeout None = ([timeout..k], Inl e)"
    using a r by (intro retry_loop_first_raise) auto
  then show "loop_func_with_timeout_log truthy func timeout (Passed (Some max_timeout))
                  = ([timeout..k], Inl e)"
    by (simp add: loop_log_valid [OF assms])
next
  assume "func d = Returns v \<and> \<not> is_truthy truthy v \<and> d + 1 < max_timeout"
  then have "retry_loop truthy (func(d := TimesOut)) timeout max_timeout None
               = retry_loop truthy func timeout max_timeout None"
    by (intro retry_loop_falsy_as_timeout) auto
  then show "loop_func_with_timeout_log truthy (func(d := TimesOut)) timeout
                    (Passed (Some max_timeout))
                  = loop_func_with_timeout_log truthy func timeout (Passed (Some max_timeout))"
    by (simp add: loop_log_valid [OF assms])
next
  assume a: "\<forall>d. timeout \<le> d \<and> d < max_timeout \<longrightarrow>
                 (\<exists>v. run_func_with_timeout func d = Inr v \<and> \<not> is_truthy truthy v)"
  have "retry_loop truthy func timeout max_timeout None
          = ([timeout..max_timeout - 1], run_func_with_timeout func (max_timeout - 1))"
    using a assms(2) by (intro retry_loop_all_falsy) auto
  then show "loop_func_with_timeout_log truthy func timeout (Passed (Some max_timeout))
                  = ([timeout..max_timeout - 1], run_func_with_timeout func (max_timeout - 1))"
    by (simp add: loop_log_valid [OF assms])
qed

lemma raising_example:
  "loop_func_with_timeout_log (\<lambda>n::int. n \<noteq> 0)
     (\<lambda>d. if d < 2 then Returns (Some 0) else Raises OtherError) 1 (Passed (Some 4))
     = ([1, 2], Inl OtherError)"
  by (simp add: loop_func_with_timeout_log_def retry_loop.simps run_func_with_timeout_def
        is_truthy_def)

theorem early_exit_is_truthy_or_exception_witness:
  "loop_func_with_timeout_log (\<lambda>n::int. n \<noteq> 0) (\<lambda>d. Returns (Some 7)) 1 (Passed (Some 4))
     = ([1], Inr (Some 7))
   \<and> is_truthy (\<lambda>n::int. n \<noteq> 0) (Some 7)
   \<and> loop_func_with_timeout_log (\<lambda>n::int. n \<noteq> 0)
        (\<lambda>d. if d < 2 then Returns (Some 0) else Raises OtherError) 1 (Passed (Some 4))
      = ([1, 2], Inl OtherError)
   \<and> loop_func_with_timeout_log (\<lambda>n::int. n \<noteq> 0) ((\<lambda>d. Returns (Some 0))(1 := TimesOut)) 1
         (Passed (Some 4))
       = loop_func_with_timeout_log (\<lambda>n::int. n \<noteq> 0) (\<lambda>d. Returns (Some 0)) 1 (Passed (Some 4))
   \<and> loop_func_with_timeout_log (\<lambda>n::int. n \<noteq> 0) (\<lambda>d. Returns (Some 0)) 1 (Passed (Some 4))
       = ([1, 2, 3], Inr (Some 0))"
proof -
  have t: "(0::int) < 1" "(1::int) < 4" by simp_all
  have u: "[1..(4::int) - 1] = [1, 2, 3]" "[1..(2::int)] = [1, 2]" by (simp_all add: upto_rec1)
  let ?tr = "\<lambda>n::int. n \<noteq> 0"
  let ?ok = "\<lambda>d::int. Returns (Some (7::int))"
  let ?bad = "\<lambda>d::int. if d < 2 then Returns (Some (0::int)) else Raises OtherError"
  let ?zero = "\<lambda>d::int. Returns (Some (0::int))"
  have e: "loop_func_with_timeout_log ?tr ?ok 1 (Passed (Some 4)) = ([1], Inr (Some 7))
           \<and> length [1::int] < nat (4 - 1)"
    using early_return_example by simp
  note w1 = early_exit_is_truthy_or_exception [OF t, where func = ?ok and truthy = ?tr
      and ds = "[1]" and res = "Inr (Some 7)", THEN conjunct1, THEN mp, OF e]
  have b: "(1::int) \<le> 2 \<and> (2::int) < 4
      \<and> (\<forall>d. 1 \<le> d \<and> d < 2 \<longrightarrow>
            (\<exists>v. run_func_with_timeout ?bad d = Inr v \<and> \<not> is_truthy ?tr v))
      \<and> ?bad 2 = Raises OtherError"
    by (simp add: run_func_with_timeout_def is_truthy_def)
  note w2 = early_exit_is_truthy_or_exception [OF t, where func = ?bad and truthy = ?tr
      and k = 2 and e = OtherError, THEN conjunct2, THEN conjunct1, THEN mp, OF b]
  have f: "?zero 1 = Returns (Some 0) \<and> \<not> is_truthy ?tr (Some 0) \<and> (1::int) + 1 < 4"
    by (simp add: is_truthy_def)
  note w3 = early_exit_is_truthy_or_exception [OF t, where func = ?zero and truthy = ?tr
      and d = 1 and v = "Some 0", THEN conjunct2, THEN conjunct2, THEN conjunct1, THEN mp, OF f]
  have a: "\<forall>d. (1::int) \<le> d \<and> d < 4 \<longrightarrow>
             (\<exists>v. run_func_with_timeout ?zero d = Inr v \<and> \<not> is_truthy ?tr v)"
    by (simp add: run_func_with_timeout_def is_truthy_def)
  note w4 = early_exit_is_truthy_or_exception [OF t, where func = ?zero and truthy = ?tr,
      THEN conjunct2, THEN conjunct2, THEN conjunct2, THEN mp, OF a]
  have l: "run_func_with_timeout ?zero (4 - 1) = Inr (Some 0)"
    by (simp add: run_func_with_timeout_def)
  show ?thesis
    using w1 w2 w3 w4 e u l by (simp add: is_truthy_def)
qed

text \<open>
  The claim C10 as stated (the loop stops early only when an attempt returns a true
  value, for every wrapped function) is false for a function that raises: the loop stops
  after the second of three attempts without any true value.
\<close>

theorem early_exit_counterexample:
  "loop_func_with_timeout_log (\<lambda>n::int. n \<noteq> 0)
     (\<lambda>d. if d < 2 then Returns (Some 0) else Raises OtherError) 1 (Passed (Some 4))
     = ([1, 2], Inl OtherError)
   \<and> length [1, 2 :: int] < nat (4 - 1)
   \<and> loop_func_with_timeout (\<lambda>n::int. n \<noteq> 0)
     (\<lambda>d. if d < 2 then Returns (Some 0) else Raises OtherError) 1 (Passed (Some 4))
     = Inl OtherError"
  by (simp add: loop_func_with_timeout_def loop_func_with_timeout_log_def retry_loop.simps
        run_func_with_timeout_def is_truthy_def)

section \<open>CRT round trip\<close>

lemma coprime_part_coprime: "gcd q m = 1 \<Longrightarrow> coprime_part q m = q"
  by (subst coprime_part.simps) simp

lemma crt_value:
  fixes m q s i :: int
  assumes m: "0 < m" and q: "0 < q" and g: "gcd m q = 1"
    and i: "(i * m) mod q = 1 mod q"
  shows "(s mod m + m * (((s mod q - s mod m) * i) mod q)) mod (m * q) = s mod (m * q)"
proof -
  define x where "x = s mod m + m * (((s mod q - s mod m) * i) mod q)"
  have xm: "x mod m = s mod m" by (simp add: x_def)
  have "x mod q = (s mod m + m * ((s mod q - s mod m) * i)) mod q"
    unfolding x_def by (metis mod_add_right_eq mod_mult_right_eq)
  also have "m * ((s mod q - s mod m) * i) = (s mod q - s mod m) * (i * m)"
    by (simp add: algebra_simps)
  also have "(s mod m + (s mod q - s mod m) * (i * m)) mod q
               = (s mod m + (s mod q - s mod m) * ((i * m) mod q)) mod q"
    by (metis mod_add_right_eq mod_mult_right_eq)
  also have "\<dots> = (s mod m + (s mod q - s mod m) * (1 mod q)) mod q" by (simp only: i)
  also have "\<dots> = (s mod m + (s mod q - s mod m) * 1) mod q"
    by (metis mod_add_right_eq mod_mult_right_eq)
  also have "\<dots> = s mod q" by simp
  finally have xq: "x mod q = s mod q" .
  have "m dvd x - s" using xm by (simp add: mod_eq_dvd_iff)
  moreover have "q dvd x - s" using xq by (simp add: mod_eq_dvd_iff)
  moreover have "coprime m q" using g by (simp add: coprime_iff_gcd_eq_1)
  ultimately have "m * q dvd x - s" by (rule divides_mult)
  then have "x mod (m * q) = s mod (m * q)" by (simp add: mod_eq_dvd_iff)
  then show ?thesis by (simp only: x_def)
qed

lemma crt_step_coprime:
  assumes m: "0 < m" and q: "0 < q" and g: "gcd m q = 1"
  shows "crt_step (m, s mod m) \<lparr>modulus = q, residue = s mod q\<rparr> = Inr (m * q, s mod (m * q))"
proof -
  have cp: "coprime_part q m = q" using g by (simp add: coprime_part_coprime gcd.commute)
  from inverse_mod_succeeds [OF q g] obtain i where
    i: "inverse_mod m q = Inr i" "(i * m) mod q = 1 mod q" by blast
  have v: "(s mod m + m * (((s mod q - s mod m) * i) mod q)) mod (m * q) = s mod (m * q)"
    using m q g i(2) by (rule crt_value)
  show ?thesis using g i(1) v by (simp add: crt_step_def cp)
qed

lemma crt_fold_records:
  "0 < m \<Longrightarrow> list_all (\<lambda>q. gcd m q = 1) qs \<Longrightarrow> pairwise_coprime qs \<Longrightarrow>
   list_all (\<lambda>q. 0 < q) qs \<Longrightarrow>
   crt_fold (m, s mod m) (records_of s qs) = Inr (m * prod_list qs, s mod (m * prod_list qs))"
proof (induction qs arbitrary: m)
  case Nil
  then show ?case by (simp add: records_of_def)
next
  case (Cons q qs)
  have q: "0 < q" and g: "gcd m q = 1" using Cons.prems by simp_all
  have step: "crt_step (m, s mod m) \<lparr>modulus = q, residue = s mod q\<rparr>
                = Inr (m * q, s mod (m * q))"
    using Cons.prems(1) q g by (rule crt_step_coprime)
  have pos: "0 < m * q" using Cons.prems(1) q by simp
  have cop: "list_all (\<lambda>r. gcd (m * q) r = 1) qs"
  proof -
    have "gcd (m * q) r = 1" if "r \<in> set qs" for r
    proof -
      have "coprime m r" "coprime q r"
        using Cons.prems that by (auto simp: list_all_iff coprime_iff_gcd_eq_1)
      then have "coprime (m * q) r" by simp
      then show ?thesis by (simp add: coprime_iff_gcd_eq_1)
    qed
    then show ?thesis by (simp add: list_all_iff)
  qed
  have "crt_fold (m * q, s mod (m * q)) (records_of s qs)
          = Inr (m * q * prod_list qs, s mod (m * q * prod_list qs))"
    using Cons.IH [OF pos cop] Cons.prems by simp
  then show ?case using step by (simp add: records_of_def mult.assoc)
qed

text \<open>
  C9. CRT round trip: for pairwise coprime (positive) moduli \<open>q_i\<close> and the residues
  \<open>s mod q_i\<close> of a secret \<open>s\<close>, the CRT combination of the records gives the product of
  the moduli and exactly \<open>s\<close> modulo that product.
\<close>

theorem crt_round_trip:
  assumes "pairwise_coprime qs" and "list_all (\<lambda>q. 0 < q) qs"
  shows "crt_combine (records_of s qs) = Inr (prod_list qs, s mod prod_list qs)"
proof -
  have "crt_fold (1, s mod 1) (records_of s qs)
          = Inr (1 * prod_list qs, s mod (1 * prod_list qs))"
    using assms by (intro crt_fold_records) (simp_all add: list_all_iff)
  then show ?thesis by (simp add: crt_combine_def)
qed

theorem crt_round_trip_witness:
  "pairwise_coprime [3, 5, 7] \<and> list_all (\<lambda>q. 0 < q) [3, 5, 7 :: int]
   \<and> crt_combine (records_of 52 [3, 5, 7]) = Inr (105, 52)"
proof -
  have a: "pairwise_coprime [3, 5, 7]" by code_simp
  have b: "list_all (\<lambda>q. 0 < q) [3, 5, 7 :: int]" by simp
  show ?thesis using a b crt_round_trip [OF a b, of 52] by simp
qed

section \<open>What the factorization returns\<close>

lemma nac_tl: "no_adjacent_composites (x # xs) \<Longrightarrow> no_adjacent_composites xs"
  by (cases xs) simp_all

lemma nac_drop1: "no_adjacent_composites xs \<Longrightarrow> no_adjacent_composites (drop 1 xs)"
  by (cases xs) (simp_all add: nac_tl)

lemma nac_primes: "list_all is_prime fs \<Longrightarrow> no_adjacent_composites fs"
  by (induction fs rule: no_adjacent_composites.induct) simp_all

lemma nac_append_primes:
  "no_adjacent_composites xs \<Longrightarrow> list_all is_prime fs \<Longrightarrow> no_adjacent_composites (xs @ fs)"
proof (induction xs)
  case Nil
  then show ?case by (simp add: nac_primes)
next
  case (Cons x xs)
  show ?case
  proof (cases xs)
    case Nil
    then show ?thesis using Cons.prems by (cases fs) (simp_all add: nac_primes)
  next
    case (Cons y ys)
    with Cons.prems Cons.IH show ?thesis by simp
  qed
qed

lemma nac_head_prime:
  "no_adjacent_composites (X # ys) \<Longrightarrow> \<not> is_prime X \<Longrightarrow> list_all is_prime fs \<Longrightarrow> fs \<noteq> [] \<Longrightarrow>
   list_all is_prime (take 1 (ys @ fs))"
  by (cases ys; cases fs) simp_all

lemma remove1_at:
  "i < length xs \<Longrightarrow> xs ! i \<notin> set (take i xs) \<Longrightarrow>
   remove1 (xs ! i) xs = take i xs @ drop (Suc i) xs"
proof (induction xs arbitrary: i)
  case Nil
  then show ?case by simp
next
  case (Cons a xs)
  show ?case
  proof (cases i)
    case 0
    then show ?thesis by simp
  next
    case (Suc j)
    with Cons.prems have "a \<noteq> xs ! j" "j < length xs" "xs ! j \<notin> set (take j xs)" by auto
    with Cons.IH [of j] Suc show ?thesis by simp
  qed
qed

lemma composites_simps:
  "composites [] = 0"
  "composites (x # xs) = (if is_prime x then composites xs else Suc (composites xs))"
  "composites (xs @ ys) = composites xs + composites ys"
  by (simp_all add: composites_def)

lemma composites_primes: "list_all is_prime fs \<Longrightarrow> composites fs = 0"
  by (induction fs) (simp_all add: composites_simps)

lemma composites_drop1: "composites (drop 1 xs) \<le> composites xs"
  by (cases xs) (simp_all add: composites_simps)


lemma ecm_splits_D:
  assumes "ecm_splits env timeout max_timeout X"
  obtains fs where
    "loop_func_with_timeout list_truthy (ecm_factor env X) timeout (Passed max_timeout)
       = Inr (Some fs)"
    "fs \<noteq> []" "list_all is_prime fs" "prod_list fs = X"
  using assms by (auto simp: ecm_splits_def split: sum.splits option.splits)

lemma factor_loop_end:
  "\<not> i < length factors \<Longrightarrow> factor_loop env timeout max_timeout i factors = Some (Inr factors)"
  by (subst factor_loop.simps) simp

lemma factor_loop_prime_step:
  "i < length factors \<Longrightarrow> is_prime (factors ! i) \<Longrightarrow>
   factor_loop env timeout max_timeout i factors
     = factor_loop env timeout max_timeout (i + 1) factors"
  by (subst factor_loop.simps) simp

lemma factor_loop_split_step:
  "i < length factors \<Longrightarrow> \<not> is_prime (factors ! i) \<Longrightarrow>
   loop_func_with_timeout list_truthy (ecm_factor env (factors ! i)) timeout (Passed max_timeout)
     = Inr (Some fs) \<Longrightarrow> fs \<noteq> [] \<Longrightarrow>
   factor_loop env timeout max_timeout i factors
     = factor_loop env timeout max_timeout (i + 1) (remove1 (factors ! i) factors @ fs)"
  by (subst factor_loop.simps) (simp add: list_truthy_def)

lemma factor_loop_splits:
  "composites (drop i factors) = c \<Longrightarrow> length factors - i = n \<Longrightarrow>
   list_all (\<lambda>X. is_prime X \<or> ecm_splits env timeout max_timeout X) factors \<Longrightarrow>
   list_all is_prime (take i factors) \<Longrightarrow>
   no_adjacent_composites (drop i factors) \<Longrightarrow>
   \<exists>res. factor_loop env timeout max_timeout i factors = Some (Inr res)
         \<and> list_all is_prime res \<and> prod_list res = prod_list factors"
proof (induction c arbitrary: i factors n rule: less_induct)
  case (less c)
  note outer = less.IH
  show ?case using less.prems
  proof (induction n arbitrary: i factors)
    case 0
    then have ge: "\<not> i < length factors" by simp
    then have "take i factors = factors" by simp
    with "0.prems"(4) have "list_all is_prime factors" by simp
    then show ?case using factor_loop_end [OF ge] by simp
  next
    case (Suc n)
    note H = Suc.prems(3) and I1 = Suc.prems(4) and I2 = Suc.prems(5)
    have lt: "i < length factors" using Suc.prems(2) by simp
    define X where "X = factors ! i"
    define ys where "ys = drop (Suc i) factors"
    have dr: "drop i factors = X # ys"
      using lt by (simp add: X_def ys_def Cons_nth_drop_Suc)
    have fac: "factors = take i factors @ X # ys"
      using lt by (simp add: X_def ys_def id_take_nth_drop [symmetric])
    have nys: "no_adjacent_composites ys" using I2 dr nac_tl by simp
    show ?case
    proof (cases "is_prime X")
      case True
      have step: "factor_loop env timeout max_timeout i factors
                    = factor_loop env timeout max_timeout (i + 1) factors"
        using lt True [unfolded X_def] by (rule factor_loop_prime_step)
      have c: "composites (drop (i + 1) factors) = c"
        using Suc.prems(1) True by (simp add: dr composites_simps ys_def)
      have n: "length factors - (i + 1) = n" using Suc.prems(2) by simp
      have t: "list_all is_prime (take (i + 1) factors)"
        using I1 True lt by (simp add: take_Suc_conv_app_nth X_def)
      have d: "no_adjacent_composites (drop (i + 1) factors)" using nys by (simp add: ys_def)
      from Suc.IH [OF c n H t d] show ?thesis by (simp add: step)
    next
      case False
      have "X \<in> set factors" using lt by (simp add: X_def)
      with H False have "ecm_splits env timeout max_timeout X" by (auto simp: list_all_iff)
      then obtain fs where
        lf: "loop_func_with_timeout list_truthy (ecm_factor env X) timeout (Passed max_timeout)
               = Inr (Some fs)"
        and ne: "fs \<noteq> []" and pf: "list_all is_prime fs" and prod: "prod_list fs = X"
        by (rule ecm_splits_D)
      have "X \<notin> set (take i factors)" using I1 False by (auto simp: list_all_iff)
      then have rm: "remove1 X factors = take i factors @ ys"
        using lt unfolding X_def ys_def by (intro remove1_at)
      define L where "L = take i factors @ ys @ fs"
      have step: "factor_loop env timeout max_timeout i factors
                    = factor_loop env timeout max_timeout (i + 1) L"
        using factor_loop_split_step [OF lt False [unfolded X_def] lf [unfolded X_def] ne]
        by (simp add: rm [unfolded X_def] L_def)
      have li: "length (take i factors) = i" using lt by simp
      have dL: "drop (i + 1) L = drop 1 (ys @ fs)"
        unfolding L_def using li by (simp add: drop_append)
      have tL: "take (i + 1) L = take i factors @ take 1 (ys @ fs)"
        unfolding L_def using li by (simp add: take_append)
      have cX: "c = Suc (composites ys)"
        using Suc.prems(1) False by (simp add: dr composites_simps)
      have "composites (drop (i + 1) L) \<le> composites (ys @ fs)"
        unfolding dL by (rule composites_drop1)
      also have "\<dots> = composites ys" using pf by (simp add: composites_simps composites_primes)
      finally have less: "composites (drop (i + 1) L) < c" using cX by simp
      have HL: "list_all (\<lambda>X. is_prime X \<or> ecm_splits env timeout max_timeout X) L"
      proof -
        have "set (take i factors) \<subseteq> set factors" by (rule set_take_subset)
        moreover have "set ys \<subseteq> set factors" unfolding ys_def by (rule set_drop_subset)
        ultimately show ?thesis using H pf unfolding L_def by (auto simp: list_all_iff)
      qed
      have t: "list_all is_prime (take (i + 1) L)"
        unfolding tL using I1 nac_head_prime [OF I2 [unfolded dr] False pf ne] by simp
      have d: "no_adjacent_composites (drop (i + 1) L)"
        unfolding dL using nys pf by (intro nac_drop1 nac_append_primes)
      from outer [OF less refl refl HL t d] obtain res where
        r: "factor_loop env timeout max_timeout (i + 1) L = Some (Inr res)"
        "list_all is_prime res" "prod_list res = prod_list L" by blast
      have "prod_list L = prod_list (take i factors) * (X * prod_list ys)"
        unfolding L_def using prod by (simp add: ac_simps)
      also have "\<dots> = prod_list (take i factors @ X # ys)" by simp
      also have "\<dots> = prod_list factors" using fac by simp
      finally have "prod_list res = prod_list factors" using r(3) by simp
      then show ?thesis using r(1,2) by (simp add: step)
    qed
  qed
qed

lemma factor_loop_stalled:
  assumes "\<And>X. \<exists>r. loop_func_with_timeout list_truthy (ecm_factor env X) timeout
                      (Passed max_timeout) = Inr r \<and> \<not> is_truthy list_truthy r"
  shows "factor_loop env timeout max_timeout i factors = Some (Inr factors)"
proof (induction "length factors - i" arbitrary: i)
  case 0
  then have "\<not> i < length factors" by simp
  then show ?case by (subst factor_loop.simps) simp
next
  case (Suc n)
  then have lt: "i < length factors" and n: "n = length factors - (i + 1)" by simp_all
  have rec: "factor_loop env timeout max_timeout (i + 1) factors = Some (Inr factors)"
    using Suc.hyps(1) [OF n] .
  from assms [of "factors ! i"] obtain r where
    r: "loop_func_with_timeout list_truthy (ecm_factor env (factors ! i)) timeout
          (Passed max_timeout) = Inr r" "\<not> is_truthy list_truthy r" by blast
  show ?case
    using lt rec r
    by (subst factor_loop.simps) (simp add: is_truthy_def split: option.splits)
qed

lemma loop_func_all_falsy:
  assumes "0 < timeout" "timeout < m"
    and "\<And>d. timeout \<le> d \<Longrightarrow> d < m \<Longrightarrow>
            \<exists>v. run_func_with_timeout func d = Inr v \<and> \<not> is_truthy truthy v"
  shows "\<exists>r. loop_func_with_timeout truthy func timeout (Passed (Some m)) = Inr r
              \<and> \<not> is_truthy truthy r"
proof -
  have "retry_loop truthy func timeout m None
          = ([timeout..m - 1], run_func_with_timeout func (m - 1))"
    using assms(3) assms(2) by (intro retry_loop_all_falsy) auto
  then have "loop_func_with_timeout truthy func timeout (Passed (Some m))
               = run_func_with_timeout func (m - 1)"
    using assms(1,2) by (simp add: loop_func_with_timeout_def loop_log_valid)
  then show ?thesis using assms(3) [of "m - 1"] assms(2) by auto
qed

lemma get_factors_unfold:
  "get_factors env N timeout max_timeout factor_dict =
     (case factor_integer env N timeout max_timeout of
        None \<Rightarrow> None
      | Some (Inl e) \<Rightarrow> Some (Inl e)
      | Some (Inr result) \<Rightarrow>
          Some (Inr (if factor_dict then FactorsAndDict result (fact_dict result)
                     else Factors result)))"
  by (simp add: get_factors_def)

text \<open>
  C5 (amended). For every integer \<open>N\<close> and time budget: when all elements of FactorDB's
  factor list are prime, \<open>factor_integer\<close> returns that list as it is. When the
  escalating ECM call splits every composite of the list into primes that multiply to
  it, and no composite of the list is directly followed by another one,
  \<open>factor_integer\<close> returns a list of primes with the product of FactorDB's list, and
  \<open>get_factors\<close> passes it on: a complete prime factorization. When ECM produces nothing
  below the ceiling (every attempt times out or gives an empty result),
  \<open>factor_integer\<close> and \<open>get_factors\<close> return FactorDB's list unchanged, composites
  included, as an ordinary result and without a failure signal.
\<close>

theorem factor_integer_complete_or_unfactored:
  "(list_all is_prime (factor_factordb env N)
      \<longrightarrow> factor_integer env N timeout max_timeout = Some (Inr (factor_factordb env N)))
   \<and> (no_adjacent_composites (factor_factordb env N)
        \<and> list_all (\<lambda>X. is_prime X \<or> ecm_splits env timeout max_timeout X)
              (factor_factordb env N)
      \<longrightarrow> (\<exists>res. factor_integer env N timeout max_timeout = Some (Inr res)
                \<and> get_factors env N timeout max_timeout False = Some (Inr (Factors res))
                \<and> list_all is_prime res
                \<and> prod_list res = prod_list (factor_factordb env N)))
   \<and> (0 < timeout \<and> timeout < m
        \<and> (\<forall>X d. timeout \<le> d \<and> d < m \<longrightarrow>
               (\<exists>v. run_func_with_timeout (ecm_factor env X) d = Inr v
                   \<and> \<not> is_truthy list_truthy v))
      \<longrightarrow> factor_integer env N timeout (Some m) = Some (Inr (factor_factordb env N))
          \<and> get_factors env N timeout (Some m) False
                = Some (Inr (Factors (factor_factordb env N))))"
proof (intro conjI impI)
  assume "list_all is_prime (factor_factordb env N)"
  then show "factor_integer env N timeout max_timeout = Some (Inr (factor_factordb env N))"
    by (simp add: factor_integer_def)
next
  assume a: "no_adjacent_composites (factor_factordb env N)
        \<and> list_all (\<lambda>X. is_prime X \<or> ecm_splits env timeout max_timeout X)
              (factor_factordb env N)"
  have "\<exists>res. factor_integer env N timeout max_timeout = Some (Inr res)
                \<and> list_all is_prime res
                \<and> prod_list res = prod_list (factor_factordb env N)"
  proof (cases "list_all is_prime (factor_factordb env N)")
    case True
    then show ?thesis by (simp add: factor_integer_def)
  next
    case False
    have "\<exists>res. factor_loop env timeout max_timeout 0 (factor_factordb env N) = Some (Inr res)
              \<and> list_all is_prime res \<and> prod_list res = prod_list (factor_factordb env N)"
      using a by (intro factor_loop_splits [OF refl refl]) simp_all
    then show ?thesis using False by (simp add: factor_integer_def)
  qed
  then show "\<exists>res. factor_integer env N timeout max_timeout = Some (Inr res)
                \<and> get_factors env N timeout max_timeout False = Some (Inr (Factors res))
                \<and> list_all is_prime res
                \<and> prod_list res = prod_list (factor_factordb env N)"
    by (auto simp: get_factors_unfold)
next
  assume a: "0 < timeout \<and> timeout < m
        \<and> (\<forall>X d. timeout \<le> d \<and> d < m \<longrightarrow>
               (\<exists>v. run_func_with_timeout (ecm_factor env X) d = Inr v
                   \<and> \<not> is_truthy list_truthy v))"
  have "\<exists>r. loop_func_with_timeout list_truthy (ecm_factor env X) timeout (Passed (Some m)) = Inr r
              \<and> \<not> is_truthy list_truthy r" for X
    using a by (intro loop_func_all_falsy) auto
  then have "factor_loop env timeout (Some m) 0 (factor_factordb env N)
               = Some (Inr (factor_factordb env N))"
    by (rule factor_loop_stalled)
  then show f: "factor_integer env N timeout (Some m) = Some (Inr (factor_factordb env N))"
    by (simp add: factor_integer_def)
  then show "get_factors env N timeout (Some m) False
                = Some (Inr (Factors (factor_factordb env N)))"
    by (simp add: get_factors_unfold)
qed

lemma ecm_env_example: "factor_integer ecm_env 105 1 (Some 3) = Some (Inr [3, 5, 7])"
  by (simp add: factor_integer_def ecm_env_def is_prime_def factor_loop.simps
      loop_func_with_timeout_def loop_func_with_timeout_log_def retry_loop.simps
      run_func_with_timeout_def is_truthy_def list_truthy_def)

lemma ecm_env_splits: "ecm_splits ecm_env 1 (Some 3) 35"
  by (simp add: ecm_splits_def ecm_env_def is_prime_def
      loop_func_with_timeout_def loop_func_with_timeout_log_def retry_loop.simps
      run_func_with_timeout_def is_truthy_def list_truthy_def)

theorem factor_integer_complete_or_unfactored_witness:
  "factor_integer prime_env 105 1 (Some 3) = Some (Inr [3, 5, 7])
   \<and> factor_integer ecm_env 105 1 (Some 3) = Some (Inr [3, 5, 7])
   \<and> get_factors ecm_env 105 1 (Some 3) False = Some (Inr (Factors [3, 5, 7]))
   \<and> list_all is_prime [3, 5, 7] \<and> prod_list [3, 5, 7 :: int] = prod_list [3, 35]
   \<and> factor_integer stalled_env 105 1 (Some 3) = Some (Inr [3, 35])
   \<and> get_factors stalled_env 105 1 (Some 3) False = Some (Inr (Factors [3, 35]))"
proof -
  have p: "list_all is_prime (factor_factordb prime_env 105)"
    "factor_factordb prime_env 105 = [3, 5, 7]"
    by (simp_all add: prime_env_def is_prime_def)
  have fe: "factor_factordb ecm_env 105 = [3, 35]" by (simp add: ecm_env_def)
  have e: "no_adjacent_composites (factor_factordb ecm_env 105)
        \<and> list_all (\<lambda>X. is_prime X \<or> ecm_splits ecm_env 1 (Some 3) X)
              (factor_factordb ecm_env 105)"
    using ecm_env_splits by (simp add: fe is_prime_def)
  have s: "(0::int) < 1 \<and> (1::int) < 3
           \<and> (\<forall>X d. (1::int) \<le> d \<and> d < 3 \<longrightarrow>
                  (\<exists>v. run_func_with_timeout (ecm_factor stalled_env X) d = Inr v
                      \<and> \<not> is_truthy list_truthy v))"
    "factor_factordb stalled_env 105 = [3, 35]"
    by (simp_all add: stalled_env_def run_func_with_timeout_def is_truthy_def)
  note w1 = factor_integer_complete_or_unfactored [where env = prime_env and N = 105
        and timeout = 1 and max_timeout = "Some 3" and m = 3, THEN conjunct1, THEN mp, OF p(1)]
  note w2 = factor_integer_complete_or_unfactored [where env = ecm_env and N = 105
        and timeout = 1 and max_timeout = "Some 3" and m = 3,
        THEN conjunct2, THEN conjunct1, THEN mp, OF e]
  note w3 = factor_integer_complete_or_unfactored [where env = stalled_env and N = 105
        and timeout = 1 and max_timeout = "Some 3" and m = 3,
        THEN conjunct2, THEN conjunct2, THEN mp, OF s(1)]
  show ?thesis
    using w1 w2 w3 p(2) s(2) fe ecm_env_example by (auto simp: is_prime_def)
qed

text \<open>
  The claim C5 as stated (the result is a complete prime factorization or a failure
  signal) is false when FactorDB reports \<open>105 = 3 * 35\<close> and ECM does not finish within
  the ceiling: the list \<open>[3, 35]\<close> with the composite \<open>35\<close> is returned as the result.
\<close>

theorem factor_integer_counterexample:
  "factor_integer stalled_env 105 1 (Some 3) = Some (Inr [3, 35])
   \<and> get_factors stalled_env 105 1 (Some 3) False = Some (Inr (Factors [3, 35]))
   \<and> \<not> is_prime 35 \<and> prod_list [3, 35 :: int] = 105"
  by (simp add: get_factors_def factor_integer_def stalled_env_def is_prime_def
      factor_loop.simps loop_func_with_timeout_def loop_func_with_timeout_log_def
      retry_loop.simps run_func_with_timeout_def is_truthy_def)

end
